theory Spec2Isabelle
  imports Complex_Main "HOL-Library.Word"
begin

section \<open>Python and NumPy values used by \<open>video_pillar_crop.py\<close>\<close>

text \<open>
  The program is Python: its integers are unbounded (\<open>int\<close>), its floats are IEEE
  binary64. A finite float is modelled by the rational number it denotes; the sign of a
  zero is not recorded (no operation of the program tells the two zeros apart except the
  printed text \<open>-0.0\<close>). Exceptions are values of \<open>py_error\<close>; a function that can
  raise returns \<open>py_error + 'a\<close> with \<open>Inl\<close> for the exception.
\<close>

datatype py_error =
    TypeError
  | ValueError
  | OverflowError
  | ZeroDivisionError
  | RuntimeError string

datatype pyfloat = Finite rat | PosInf | NegInf | NaN

subsection \<open>Rounding a rational to the nearest binary64 value\<close>

text \<open>Round to the nearest integer, ties to the even one.\<close>

definition round_half_even :: "rat \<Rightarrow> int" where
  "round_half_even q =
     (let f = \<lfloor>q\<rfloor>; d = q - of_int f in
      if d < 1 / 2 then f else if 1 / 2 < d then f + 1 else if even f then f else f + 1)"

text \<open>Number of binary digits of a positive integer.\<close>

function bitlen :: "int \<Rightarrow> nat" where
  "bitlen a = (if 0 < a then Suc (bitlen (a div 2)) else 0)"
  by pat_completeness auto
termination
  by (relation "measure nat") auto

declare bitlen.simps [simp del]

text \<open>
  The exponent of the unit in the last place of the binary64 value nearest to \<open>q\<close>:
  the \<open>e\<close> with \<open>2^52 \<le> |q| / 2^e < 2^53\<close>, and \<open>-1074\<close> in the subnormal range.
\<close>

definition ulp_exp :: "rat \<Rightarrow> int" where
  "ulp_exp q =
     (let (a, b) = quotient_of \<bar>q\<bar>;
          k = int (bitlen a) - int (bitlen b) - 53;
          e = (if 2 powi 53 \<le> \<bar>q\<bar> / (2 powi k) then k + 1 else k)
      in max e (- 1074))"

text \<open>
  Round to nearest, ties to even, with 53 significant bits and gradual underflow; the
  exponent is not bounded above here, the callers below test for overflow.
\<close>

definition fl64 :: "rat \<Rightarrow> rat" where
  "fl64 q = of_int (round_half_even (q / (2 powi ulp_exp q))) * (2 powi ulp_exp q)"

text \<open>A rounded result of magnitude \<open>2^1024\<close> or more does not fit a binary64.\<close>

definition dbl_overflow :: rat where
  "dbl_overflow = 2 ^ 1024"

definition round_to_double :: "rat \<Rightarrow> pyfloat" where
  "round_to_double q =
     (let r = fl64 q in
      if dbl_overflow \<le> r then PosInf else if r \<le> - dbl_overflow then NegInf else Finite r)"

subsection \<open>The float operations the program calls\<close>

text \<open>\<open>float(n)\<close> for a Python int, as the mixed operation \<open>frame_pct * n\<close> converts it.\<close>

definition float_of_int :: "int \<Rightarrow> py_error + rat" where
  "float_of_int n =
     (let r = fl64 (of_int n) in
      if dbl_overflow \<le> \<bar>r\<bar> then Inl OverflowError else Inr r)"

definition float_neg :: "pyfloat \<Rightarrow> bool" where
  "float_neg v = (case v of Finite q \<Rightarrow> q < 0 | NegInf \<Rightarrow> True | _ \<Rightarrow> False)"

text \<open>
  IEEE multiplication: it never raises; a finite product overflows to an infinity, and an
  infinity times zero is NaN (\<open>inf_mul\<close> is the product when an operand is infinite).
\<close>

definition inf_mul :: "pyfloat \<Rightarrow> pyfloat \<Rightarrow> pyfloat" where
  "inf_mul u v =
     (if u = Finite 0 \<or> v = Finite 0 then NaN
      else if float_neg u = float_neg v then PosInf else NegInf)"

definition float_mul :: "pyfloat \<Rightarrow> pyfloat \<Rightarrow> pyfloat" where
  "float_mul u v =
     (case u of
        NaN \<Rightarrow> NaN
      | Finite a \<Rightarrow>
          (case v of NaN \<Rightarrow> NaN | Finite b \<Rightarrow> round_to_double (a * b) | _ \<Rightarrow> inf_mul u v)
      | _ \<Rightarrow> (case v of NaN \<Rightarrow> NaN | _ \<Rightarrow> inf_mul u v))"

text \<open>The comparison \<open><=\<close> of two floats: false as soon as one is NaN.\<close>

fun float_le :: "pyfloat \<Rightarrow> pyfloat \<Rightarrow> bool" where
  "float_le NaN v = False"
| "float_le v NaN = False"
| "float_le NegInf v = True"
| "float_le v PosInf = True"
| "float_le (Finite a) (Finite b) = (a \<le> b)"
| "float_le u v = False"

text \<open>\<open>math.ceil\<close>: the integer above, \<open>ValueError\<close> on NaN, \<open>OverflowError\<close> on an infinity.\<close>

fun math_ceil :: "pyfloat \<Rightarrow> py_error + int" where
  "math_ceil (Finite q) = Inr \<lceil>q\<rceil>"
| "math_ceil NaN = Inl ValueError"
| "math_ceil v = Inl OverflowError"

text \<open>
  \<open>a / b\<close> on two Python ints: the correctly rounded quotient, \<open>ZeroDivisionError\<close> when
  \<open>b\<close> is zero, \<open>OverflowError\<close> when the quotient is too large for a float.
\<close>

definition py_truediv :: "int \<Rightarrow> int \<Rightarrow> py_error + rat" where
  "py_truediv a b =
     (if b = 0 then Inl ZeroDivisionError
      else let r = fl64 (of_int a / of_int b) in
           if dbl_overflow \<le> \<bar>r\<bar> then Inl OverflowError else Inr r)"

text \<open>
  \<open>round(v, ndigits)\<close> on a finite float, \<open>ndigits \<ge> 0\<close>: CPython rounds the exact binary
  value to \<open>ndigits\<close> decimals, ties to even, and converts the decimal back to the nearest
  float; beyond 323 digits the float rounds to itself.
\<close>

definition round_decimals :: "rat \<Rightarrow> nat \<Rightarrow> rat" where
  "round_decimals v ndigits = of_int (round_half_even (v * 10 ^ ndigits)) / 10 ^ ndigits"

definition py_round :: "rat \<Rightarrow> nat \<Rightarrow> py_error + rat" where
  "py_round v ndigits =
     (if 323 < ndigits then Inr v
      else let r = fl64 (round_decimals v ndigits) in
           if dbl_overflow \<le> \<bar>r\<bar> then Inl OverflowError else Inr r)"

section \<open>The program\<close>

subsection \<open>Frames and \<open>column_blackness\<close>\<close>

text \<open>
  A frame is a grayscale image as \<open>Image.open(p).convert("L")\<close> returns it: its width,
  its height and one unsigned byte per pixel; \<open>img_px img r c\<close> is the entry
  \<open>arr[r][c]\<close> of \<open>np.array(img, dtype=np.uint8)\<close>, read for \<open>r < img_height img\<close> and
  \<open>c < img_width img\<close> only.
\<close>

record frame =
  img_width :: nat
  img_height :: nat
  img_px :: "nat \<Rightarrow> nat \<Rightarrow> 8 word"

text \<open>
  One entry of \<open>arr.mean(axis=0)\<close>: the float64 sum of the column divided by the number
  of rows. The sum of at most \<open>2^45\<close> bytes is an integer below \<open>2^53\<close> and therefore
  exact in float64, so only the division rounds. With no rows NumPy divides \<open>0.0\<close> by
  zero and the mean is NaN (a warning, no exception).
\<close>

definition column_sum :: "frame \<Rightarrow> nat \<Rightarrow> nat" where
  "column_sum img c = sum_list (map (\<lambda>r. unat (img_px img r c)) [0..<img_height img])"

definition column_mean :: "frame \<Rightarrow> nat \<Rightarrow> pyfloat" where
  "column_mean img c =
     (if img_height img = 0 then NaN
      else Finite (fl64 (of_nat (column_sum img c) / of_nat (img_height img))))"

text \<open>
  \<open>column_blackness(img, threshold)\<close> returns \<open>(means <= threshold, means)\<close>. The integer
  threshold is compared by value.
\<close>

definition column_blackness :: "frame \<Rightarrow> int \<Rightarrow> bool list \<times> pyfloat list" where
  "column_blackness img threshold =
     (let means = map (column_mean img) [0..<img_width img]
      in (map (\<lambda>m. float_le m (Finite (of_int threshold))) means, means))"

subsection \<open>\<open>analyze_frames\<close>\<close>

text \<open>The dictionary \<open>analyze_frames\<close> returns.\<close>

record analysis =
  n_frames :: int
  width :: nat
  height :: nat
  counts :: "int list"
  black_cols :: "bool list"
  col_means :: "pyfloat list list"

text \<open>
  The variables of the loop. \<open>counts\<close> is \<open>None\<close> until the first frame, which also binds
  \<open>width\<close> and \<open>height\<close>: the three are one optional triple \<open>ls_first\<close>.
\<close>

record loop_state =
  ls_first :: "(int list \<times> nat \<times> nat) option"
  ls_store :: "pyfloat list list"
  ls_n :: int

definition astype_int :: "bool list \<Rightarrow> int list" where
  "astype_int bw = map (\<lambda>b. if b then 1 else 0) bw"

definition widths_vary :: py_error where
  "widths_vary = RuntimeError ''Extracted frame widths vary; unexpected.''"

text \<open>One iteration of \<open>for p in frames\<close>.\<close>

definition frame_step :: "int \<Rightarrow> loop_state \<Rightarrow> frame \<Rightarrow> py_error + loop_state" where
  "frame_step threshold s img =
     (let (bw, means) = column_blackness img threshold;
          store = ls_store s @ [means]
      in case ls_first s of
           None \<Rightarrow>
             Inr \<lparr>ls_first = Some (astype_int bw, img_width img, img_height img),
                  ls_store = store, ls_n = ls_n s + 1\<rparr>
         | Some (cnts, wd, ht) \<Rightarrow>
             if img_width img \<noteq> wd then Inl widths_vary
             else Inr \<lparr>ls_first = Some (map2 (+) cnts (astype_int bw), wd, ht),
                       ls_store = store, ls_n = ls_n s + 1\<rparr>)"

fun frames_loop :: "int \<Rightarrow> loop_state \<Rightarrow> frame list \<Rightarrow> py_error + loop_state" where
  "frames_loop threshold s [] = Inr s"
| "frames_loop threshold s (p # ps) =
     (case frame_step threshold s p of
        Inl e \<Rightarrow> Inl e
      | Inr s' \<Rightarrow> frames_loop threshold s' ps)"

text \<open>\<open>required = math.ceil(frame_pct * n)\<close>\<close>

definition required_count :: "pyfloat \<Rightarrow> int \<Rightarrow> py_error + int" where
  "required_count frame_pct n =
     (case float_of_int n of
        Inl e \<Rightarrow> Inl e
      | Inr r \<Rightarrow> math_ceil (float_mul frame_pct (Finite r)))"

text \<open>\<open>black_cols = counts >= required\<close>, elementwise.\<close>

definition counts_ge :: "int list \<Rightarrow> int \<Rightarrow> bool list" where
  "counts_ge cnts required = map (\<lambda>c. required \<le> c) cnts"

text \<open>
  After the loop the required count is computed first; comparing \<open>counts\<close> with it raises
  \<open>TypeError\<close> when \<open>counts\<close> is still \<open>None\<close>.
\<close>

definition analyze_frames :: "frame list \<Rightarrow> int \<Rightarrow> pyfloat \<Rightarrow> py_error + analysis" where
  "analyze_frames frames threshold frame_pct =
     (case frames_loop threshold \<lparr>ls_first = None, ls_store = [], ls_n = 0\<rparr> frames of
        Inl e \<Rightarrow> Inl e
      | Inr s \<Rightarrow>
          (case required_count frame_pct (ls_n s) of
             Inl e \<Rightarrow> Inl e
           | Inr required \<Rightarrow>
               (case ls_first s of
                  None \<Rightarrow> Inl TypeError
                | Some (cnts, wd, ht) \<Rightarrow>
                    Inr \<lparr>n_frames = ls_n s, width = wd, height = ht, counts = cnts,
                         black_cols = counts_ge cnts required, col_means = ls_store s\<rparr>)))"

subsection \<open>\<open>find_pillars\<close>\<close>

text \<open>The two \<open>while\<close> loops, each on its counter.\<close>

function left_scan :: "bool list \<Rightarrow> nat \<Rightarrow> nat" where
  "left_scan black_cols_bool left =
     (if left < length black_cols_bool \<and> black_cols_bool ! left
      then left_scan black_cols_bool (left + 1) else left)"
  by pat_completeness auto
termination
  by (relation "measure (\<lambda>(bs, left). length bs - left)") auto

function right_scan :: "bool list \<Rightarrow> nat \<Rightarrow> nat" where
  "right_scan black_cols_bool right =
     (if right < length black_cols_bool
         \<and> black_cols_bool ! (length black_cols_bool - 1 - right)
      then right_scan black_cols_bool (right + 1) else right)"
  by pat_completeness auto
termination
  by (relation "measure (\<lambda>(bs, right). length bs - right)") auto

declare left_scan.simps [simp del] right_scan.simps [simp del]

definition find_pillars :: "bool list \<Rightarrow> int \<times> int" where
  "find_pillars black_cols_bool =
     (let W = length black_cols_bool;
          left = left_scan black_cols_bool 0;
          right = right_scan black_cols_bool 0
      in (int (min left (W div 2)), int (min right (W div 2))))"

subsection \<open>\<open>to_norm\<close>\<close>

text \<open>The dictionary \<open>to_norm\<close> returns; the keys are prefixed with \<open>crop_\<close>.\<close>

record crop =
  crop_x :: int
  crop_y :: int
  crop_w :: int
  crop_h :: int
  crop_nx :: rat
  crop_ny :: rat
  crop_nw :: rat
  crop_nh :: rat

text \<open>\<open>round(a / b, 6)\<close>\<close>

definition round6_div :: "int \<Rightarrow> int \<Rightarrow> py_error + rat" where
  "round6_div a b = (case py_truediv a b of Inl e \<Rightarrow> Inl e | Inr v \<Rightarrow> py_round v 6)"

text \<open>The four normalized entries are evaluated in the order of the dictionary display.\<close>

definition to_norm :: "int \<Rightarrow> int \<Rightarrow> int \<Rightarrow> int \<Rightarrow> py_error + crop" where
  "to_norm left right W H =
     (let x = left; y = 0; w = max 0 (W - left - right); h = H in
      case round6_div x W of Inl e \<Rightarrow> Inl e | Inr nx \<Rightarrow>
      (case round6_div y H of Inl e \<Rightarrow> Inl e | Inr ny \<Rightarrow>
      (case round6_div w W of Inl e \<Rightarrow> Inl e | Inr nw \<Rightarrow>
      (case round6_div h H of Inl e \<Rightarrow> Inl e | Inr nh \<Rightarrow>
         Inr \<lparr>crop_x = x, crop_y = y, crop_w = w, crop_h = h,
              crop_nx = nx, crop_ny = ny, crop_nw = nw, crop_nh = nh\<rparr>))))"

section \<open>Properties of the rounding\<close>

lemma bitlen_bounds: "0 < a \<Longrightarrow> 2 ^ (bitlen a - 1) \<le> a \<and> a < 2 ^ bitlen a"
proof (induction a rule: bitlen.induct)
  case (1 a)
  show ?case
  proof (cases "a = 1")
    case True
    have "bitlen 1 = 1" by (simp add: bitlen.simps[of 1] bitlen.simps[of 0])
    with True show ?thesis by simp
  next
    case False
    with "1.prems" have h: "0 < a div 2" by simp
    have b: "bitlen a = Suc (bitlen (a div 2))" using "1.prems" by (subst bitlen.simps) simp
    from "1.IH"[OF "1.prems" h] have ih: "2 ^ (bitlen (a div 2) - 1) \<le> a div 2" "a div 2 < 2 ^ bitlen (a div 2)" by auto
    have pos: "0 < bitlen (a div 2)" using h by (subst bitlen.simps) simp
    then obtain m where m: "bitlen (a div 2) = Suc m" by (cases "bitlen (a div 2)") auto
    from ih m have "2 * 2 ^ m \<le> a" "a < 2 * 2 ^ Suc m" by auto
    with b m show ?thesis by simp
  qed
qed


lemma pow2_less_iff: "(2::rat) powi a < 2 powi b \<longleftrightarrow> a < b"
proof
  assume h: "(2::rat) powi a < 2 powi b"
  show "a < b"
  proof (rule ccontr)
    assume "\<not> a < b"
    then have "b \<le> a" by simp
    then have "(2::rat) powi b \<le> 2 powi a" by (intro power_int_increasing) auto
    with h show False by simp
  qed
next
  assume "a < b"
  then show "(2::rat) powi a < 2 powi b" by (intro power_int_strict_increasing) auto
qed

lemma pow2_le_iff: "(2::rat) powi a \<le> 2 powi b \<longleftrightarrow> a \<le> b"
  using pow2_less_iff[of b a] by (auto simp: not_less[symmetric])

lemma pow2_pos: "0 < (2::rat) powi a"
  by simp

lemma pow2_add: "(2::rat) powi (a + b) = 2 powi a * 2 powi b"
  by (simp add: power_int_add)

lemma ulp_exp_ge: "- 1074 \<le> ulp_exp q"
  by (simp add: ulp_exp_def Let_def split: prod.splits)

lemma ulp_exp_minus: "ulp_exp (- q) = ulp_exp q"
  by (simp add: ulp_exp_def)

lemma ulp_exp_bounds:
  assumes "q \<noteq> 0"
  shows "\<bar>q\<bar> < 2 powi (ulp_exp q + 53)"
    and "- 1074 < ulp_exp q \<Longrightarrow> 2 powi (ulp_exp q + 52) \<le> \<bar>q\<bar>"
proof -
  obtain a b where ab: "quotient_of \<bar>q\<bar> = (a, b)" by (cases "quotient_of \<bar>q\<bar>") auto
  have bpos: "0 < b" using ab by (rule quotient_of_denom_pos)
  have qab: "\<bar>q\<bar> = of_int a / of_int b" using ab by (rule quotient_of_div)
  have apos: "0 < a"
  proof -
    have "0 < \<bar>q\<bar>" using assms by simp
    with qab bpos show ?thesis by (simp add: zero_less_divide_iff)
  qed
  define la where "la = bitlen a"
  define lb where "lb = bitlen b"
  define k where "k = int la - int lb - 53"
  have a1: "(of_int a :: rat) < 2 powi int la"
  proof -
    have "a < 2 ^ la" using bitlen_bounds[OF apos] by (simp add: la_def)
    then have "(of_int a :: rat) < of_int (2 ^ la)" by (simp only: of_int_less_iff)
    then show ?thesis by simp
  qed
  have a2: "(2::rat) powi (int la - 1) \<le> of_int a"
  proof -
    have "0 < la" using apos by (simp add: la_def bitlen.simps[of a])
    then obtain m where m: "la = Suc m" by (cases la) auto
    have "2 ^ (la - 1) \<le> a" using bitlen_bounds[OF apos] by (simp add: la_def)
    then have "2 ^ m \<le> a" by (simp add: m)
    then have "(of_int (2 ^ m) :: rat) \<le> of_int a" by (simp only: of_int_le_iff)
    then have "(2::rat) powi int m \<le> of_int a" by simp
    moreover have "int la - 1 = int m" by (simp add: m)
    ultimately show ?thesis by (simp only:)
  qed
  have b1: "(of_int b :: rat) < 2 powi int lb"
  proof -
    have "b < 2 ^ lb" using bitlen_bounds[OF bpos] by (simp add: lb_def)
    then have "(of_int b :: rat) < of_int (2 ^ lb)" by (simp only: of_int_less_iff)
    then show ?thesis by simp
  qed
  have b2: "(2::rat) powi (int lb - 1) \<le> of_int b"
  proof -
    have "0 < lb" using bpos by (simp add: lb_def bitlen.simps[of b])
    then obtain m where m: "lb = Suc m" by (cases lb) auto
    have "2 ^ (lb - 1) \<le> b" using bitlen_bounds[OF bpos] by (simp add: lb_def)
    then have "2 ^ m \<le> b" by (simp add: m)
    then have "(of_int (2 ^ m) :: rat) \<le> of_int b" by (simp only: of_int_le_iff)
    then have "(2::rat) powi int m \<le> of_int b" by simp
    moreover have "int lb - 1 = int m" by (simp add: m)
    ultimately show ?thesis by (simp only:)
  qed
  have bq: "(0::rat) < of_int b" using bpos by simp
  have aq: "(0::rat) < of_int a" using apos by simp
  have up: "\<bar>q\<bar> < 2 powi (k + 54)"
  proof -
    have "\<bar>q\<bar> * of_int b = of_int a" using qab bq by simp
    also have "\<dots> < 2 powi int la" by (rule a1)
    also have "\<dots> = 2 powi (k + 54) * 2 powi (int lb - 1)"
      by (simp add: k_def flip: pow2_add)
    also have "\<dots> \<le> 2 powi (k + 54) * of_int b"
      using b2 by (intro mult_left_mono) auto
    finally show ?thesis using bq by simp
  qed
  have lo: "2 powi (k + 52) \<le> \<bar>q\<bar>"
  proof -
    have "(2::rat) powi (k + 52) * of_int b \<le> 2 powi (k + 52) * 2 powi int lb"
      using b1 by (intro mult_left_mono) auto
    also have "\<dots> = 2 powi (int la - 1)"
    proof -
      have "k + 52 + int lb = int la - 1" by (simp add: k_def)
      then show ?thesis by (simp only: pow2_add[symmetric])
    qed
    also have "\<dots> \<le> of_int a" by (rule a2)
    also have "\<dots> = \<bar>q\<bar> * of_int b" using qab bq by simp
    finally show ?thesis using bq by simp
  qed
  define e0 where "e0 = (if (2::rat) powi 53 \<le> \<bar>q\<bar> / (2 powi k) then k + 1 else k)"
  have e: "ulp_exp q = max e0 (- 1074)"
    by (simp add: ulp_exp_def ab Let_def e0_def k_def la_def lb_def)
  have split53: "(2::rat) powi 53 \<le> \<bar>q\<bar> / (2 powi k) \<longleftrightarrow> 2 powi (k + 53) \<le> \<bar>q\<bar>"
    by (simp add: pow2_add pos_le_divide_eq mult.commute del: power_int_numeral)
  have up0: "\<bar>q\<bar> < 2 powi (e0 + 53)"
  proof (cases "(2::rat) powi 53 \<le> \<bar>q\<bar> / (2 powi k)")
    case True
    then have "e0 = k + 1" by (simp add: e0_def)
    with up show ?thesis by (simp add: add.commute add.left_commute)
  next
    case False
    then have "e0 = k" by (simp add: e0_def)
    with False split53 show ?thesis by simp
  qed
  have lo0: "2 powi (e0 + 52) \<le> \<bar>q\<bar>"
  proof (cases "(2::rat) powi 53 \<le> \<bar>q\<bar> / (2 powi k)")
    case True
    then have "e0 = k + 1" by (simp add: e0_def)
    with True split53 show ?thesis by (simp add: add.commute add.left_commute)
  next
    case False
    then have "e0 = k" by (simp add: e0_def)
    with lo show ?thesis by simp
  qed
  have "(2::rat) powi (e0 + 53) \<le> 2 powi (ulp_exp q + 53)"
    unfolding pow2_le_iff e by simp
  with up0 show "\<bar>q\<bar> < 2 powi (ulp_exp q + 53)" by simp
  show "2 powi (ulp_exp q + 52) \<le> \<bar>q\<bar>" if "- 1074 < ulp_exp q"
  proof -
    from that e have "ulp_exp q = e0" by (simp add: max_def split: if_splits)
    with lo0 show ?thesis by simp
  qed
qed


lemma round_half_even_of_int: "round_half_even (of_int n) = n"
  by (simp add: round_half_even_def)

lemma round_half_even_range:
  "\<lfloor>q\<rfloor> \<le> round_half_even q" "round_half_even q \<le> \<lfloor>q\<rfloor> + 1"
  by (simp_all add: round_half_even_def Let_def)

lemma round_half_even_mono:
  assumes "q1 \<le> q2"
  shows "round_half_even q1 \<le> round_half_even q2"
proof (cases "\<lfloor>q1\<rfloor> = \<lfloor>q2\<rfloor>")
  case True
  have "q1 - of_int \<lfloor>q2\<rfloor> \<le> q2 - of_int \<lfloor>q2\<rfloor>" using assms by simp
  then show ?thesis
    by (auto simp: round_half_even_def Let_def True)
next
  case False
  with assms have "\<lfloor>q1\<rfloor> < \<lfloor>q2\<rfloor>"
    using floor_mono[OF assms] by simp
  then have "round_half_even q1 \<le> \<lfloor>q2\<rfloor>"
    using round_half_even_range(2)[of q1] by simp
  then show ?thesis
    using round_half_even_range(1)[of q2] by simp
qed

lemma round_half_even_minus: "round_half_even (- q) = - round_half_even q"
proof (cases "q = of_int \<lfloor>q\<rfloor>")
  case True
  then obtain n where "q = of_int n" ..
  then have "round_half_even (- q) = round_half_even (of_int (- n))" by simp
  then show ?thesis
    using \<open>q = of_int n\<close> by (simp only: round_half_even_of_int)
next
  case False
  define f where "f = \<lfloor>q\<rfloor>"
  have f1: "of_int f < q" using False unfolding f_def by (metis of_int_floor_le order_le_less)
  have f2: "q < of_int f + 1" using floor_correct[of q] by (simp add: f_def)
  have m: "\<lfloor>- q\<rfloor> = - f - 1"
    using f1 f2 by (intro floor_unique) auto
  show ?thesis
    using f1 f2 unfolding round_half_even_def Let_def m f_def[symmetric]
    by (auto simp: field_simps)
qed

lemma round_half_even_ge: "of_int n \<le> q \<Longrightarrow> n \<le> round_half_even q"
  using round_half_even_mono[of "of_int n" q] by (simp add: round_half_even_of_int)

lemma round_half_even_le: "q \<le> of_int n \<Longrightarrow> round_half_even q \<le> n"
  using round_half_even_mono[of q "of_int n"] by (simp add: round_half_even_of_int)

lemma fl64_zero: "fl64 0 = 0"
  by (simp add: fl64_def round_half_even_def)

lemma fl64_minus: "fl64 (- q) = - fl64 q"
  by (simp add: fl64_def ulp_exp_minus round_half_even_minus)

lemma fl64_nonneg: "0 \<le> q \<Longrightarrow> 0 \<le> fl64 q"
proof -
  assume "0 \<le> q"
  then have "(0::rat) \<le> q / 2 powi ulp_exp q" by simp
  then have "0 \<le> round_half_even (q / 2 powi ulp_exp q)"
    using round_half_even_ge[of 0] by simp
  then show ?thesis by (simp add: fl64_def)
qed

lemma ulp_exp_mono:
  assumes "0 < q1" "q1 \<le> q2"
  shows "ulp_exp q1 \<le> ulp_exp q2"
proof (cases "- 1074 < ulp_exp q1")
  case True
  have "2 powi (ulp_exp q1 + 52) \<le> \<bar>q1\<bar>"
    using ulp_exp_bounds(2)[of q1] True assms by simp
  also have "\<dots> \<le> \<bar>q2\<bar>" using assms by simp
  also have "\<dots> < 2 powi (ulp_exp q2 + 53)"
    using ulp_exp_bounds(1)[of q2] assms by simp
  finally show ?thesis by (simp add: pow2_less_iff)
next
  case False
  then have "ulp_exp q1 = - 1074" using ulp_exp_ge[of q1] by simp
  then show ?thesis using ulp_exp_ge[of q2] by simp
qed

lemma fl64_upper:
  assumes "0 < q"
  shows "fl64 q \<le> 2 powi (ulp_exp q + 53)"
proof -
  have "q < 2 powi (ulp_exp q + 53)" using ulp_exp_bounds(1)[of q] assms by simp
  then have "q / 2 powi ulp_exp q < 2 powi 53"
    by (simp add: pow2_add pos_divide_less_eq mult.commute del: power_int_numeral)
  then have "q / 2 powi ulp_exp q \<le> of_int (2 ^ 53)" by simp
  then have "round_half_even (q / 2 powi ulp_exp q) \<le> 2 ^ 53"
    by (rule round_half_even_le)
  then have "(of_int (round_half_even (q / 2 powi ulp_exp q)) :: rat) \<le> of_int (2 ^ 53)"
    by (simp only: of_int_le_iff)
  then have "fl64 q \<le> of_int (2 ^ 53) * 2 powi ulp_exp q"
    unfolding fl64_def by (intro mult_right_mono) auto
  also have "\<dots> = 2 powi (ulp_exp q + 53)"
    by (simp add: pow2_add)
  finally show ?thesis .
qed

lemma fl64_lower:
  assumes "0 < q" "- 1074 < ulp_exp q"
  shows "2 powi (ulp_exp q + 52) \<le> fl64 q"
proof -
  have "2 powi (ulp_exp q + 52) \<le> q" using ulp_exp_bounds(2)[of q] assms by simp
  then have "2 powi 52 \<le> q / 2 powi ulp_exp q"
    by (simp add: pow2_add pos_le_divide_eq mult.commute del: power_int_numeral)
  then have "of_int (2 ^ 52) \<le> q / 2 powi ulp_exp q" by simp
  then have "2 ^ 52 \<le> round_half_even (q / 2 powi ulp_exp q)"
    by (rule round_half_even_ge)
  then have "(of_int (2 ^ 52) :: rat) \<le> of_int (round_half_even (q / 2 powi ulp_exp q))"
    by (simp only: of_int_le_iff)
  then have "of_int (2 ^ 52) * 2 powi ulp_exp q \<le> fl64 q"
    unfolding fl64_def by (intro mult_right_mono) auto
  moreover have "of_int (2 ^ 52) * 2 powi ulp_exp q = (2::rat) powi (ulp_exp q + 52)"
    by (simp add: pow2_add)
  ultimately show ?thesis by simp
qed

lemma fl64_mono_pos:
  assumes "0 < q1" "q1 \<le> q2"
  shows "fl64 q1 \<le> fl64 q2"
proof (cases "ulp_exp q1 = ulp_exp q2")
  case True
  have "q1 / 2 powi ulp_exp q2 \<le> q2 / 2 powi ulp_exp q2"
    using assms by (simp add: divide_right_mono)
  then have "round_half_even (q1 / 2 powi ulp_exp q2) \<le> round_half_even (q2 / 2 powi ulp_exp q2)"
    by (rule round_half_even_mono)
  then have "(of_int (round_half_even (q1 / 2 powi ulp_exp q2)) :: rat)
      \<le> of_int (round_half_even (q2 / 2 powi ulp_exp q2))"
    by (simp only: of_int_le_iff)
  then show ?thesis
    unfolding fl64_def True by (intro mult_right_mono) auto
next
  case False
  with ulp_exp_mono[OF assms] have lt: "ulp_exp q1 < ulp_exp q2" by simp
  have q2: "0 < q2" using assms by simp
  have "fl64 q1 \<le> 2 powi (ulp_exp q1 + 53)" using assms(1) by (rule fl64_upper)
  also have "\<dots> \<le> 2 powi (ulp_exp q2 + 52)"
    using lt by (simp add: pow2_le_iff)
  also have "\<dots> \<le> fl64 q2"
    using q2 lt ulp_exp_ge[of q1] by (intro fl64_lower) auto
  finally show ?thesis .
qed

lemma fl64_mono:
  assumes "q1 \<le> q2"
  shows "fl64 q1 \<le> fl64 q2"
proof -
  consider "0 < q1" | "q1 \<le> 0" "0 \<le> q2" | "q2 < 0" by linarith
  then show ?thesis
  proof cases
    case 1
    then show ?thesis using assms by (rule fl64_mono_pos)
  next
    case 2
    have "fl64 q1 = - fl64 (- q1)" by (simp add: fl64_minus)
    moreover have "0 \<le> fl64 (- q1)" using 2 by (intro fl64_nonneg) simp
    moreover have "0 \<le> fl64 q2" using 2 by (intro fl64_nonneg)
    ultimately show ?thesis by simp
  next
    case 3
    then have "0 < - q2" "- q2 \<le> - q1" using assms by simp_all
    then have "fl64 (- q2) \<le> fl64 (- q1)" by (rule fl64_mono_pos)
    then show ?thesis by (simp add: fl64_minus)
  qed
qed

lemma fl64_representable:
  assumes "\<bar>m\<bar> < 2 ^ 53" "- 1074 \<le> e"
  shows "fl64 (of_int m * 2 powi e) = of_int m * 2 powi e"
proof (cases "m = 0")
  case True
  then show ?thesis by (simp add: fl64_zero)
next
  case False
  define q :: rat where "q = of_int m * 2 powi e"
  have q0: "q \<noteq> 0" using False by (simp add: q_def)
  have le: "ulp_exp q \<le> e"
  proof (cases "- 1074 < ulp_exp q")
    case True
    have "2 powi (ulp_exp q + 52) \<le> \<bar>q\<bar>" using ulp_exp_bounds(2)[OF q0 True] .
    also have "\<dots> = of_int \<bar>m\<bar> * 2 powi e" by (simp add: q_def abs_mult)
    also have "\<dots> < of_int (2 ^ 53) * 2 powi e"
      using assms(1) by (intro mult_strict_right_mono) (simp_all only: of_int_less_iff pow2_pos)
    also have "\<dots> = 2 powi (e + 53)" by (simp add: pow2_add)
    finally show ?thesis by (simp add: pow2_less_iff)
  next
    case False
    then have "ulp_exp q = - 1074" using ulp_exp_ge[of q] by simp
    with assms(2) show ?thesis by simp
  qed
  define d where "d = nat (e - ulp_exp q)"
  have e: "e = ulp_exp q + int d" using le by (simp add: d_def)
  have "q / 2 powi ulp_exp q = of_int m * (2 powi (ulp_exp q + int d) / 2 powi ulp_exp q)"
    by (simp only: e[symmetric]) (simp add: q_def)
  also have "\<dots> = of_int m * 2 powi int d"
    by (simp only: pow2_add) simp
  also have "\<dots> = of_int (m * 2 ^ d)" by simp
  finally have "round_half_even (q / 2 powi ulp_exp q) = m * 2 ^ d"
    by (simp only: round_half_even_of_int)
  then have "fl64 q = of_int (m * 2 ^ d) * 2 powi ulp_exp q"
    by (simp add: fl64_def)
  also have "\<dots> = of_int m * (2 powi int d * 2 powi ulp_exp q)" by simp
  also have "\<dots> = of_int m * 2 powi e"
    by (simp only: pow2_add[symmetric] e add.commute)
  finally show ?thesis by (simp add: q_def)
qed

lemma fl64_of_int: "\<bar>n\<bar> < 2 ^ 53 \<Longrightarrow> fl64 (of_int n) = of_int n"
  using fl64_representable[of n 0] by simp

lemma fl64_abs_le_pow2:
  assumes "\<bar>q\<bar> \<le> 2 powi k" "- 1074 \<le> k"
  shows "\<bar>fl64 q\<bar> \<le> 2 powi k"
proof -
  have r: "fl64 (2 powi k) = 2 powi k"
    using fl64_representable[of 1 k] assms(2) by simp
  have "fl64 q \<le> fl64 (2 powi k)" using assms(1) by (intro fl64_mono) simp
  moreover have "fl64 (- (2 powi k)) \<le> fl64 q" using assms(1) by (intro fl64_mono) simp
  ultimately show ?thesis by (simp add: r fl64_minus abs_le_iff)
qed

section \<open>The edge scans of \<open>find_pillars\<close>\<close>

lemma left_scan_takeWhile:
  "left_scan bs k = k + length (takeWhile (\<lambda>b. b) (drop k bs))"
proof (induction bs k rule: left_scan.induct)
  case (1 bs k)
  show ?case
  proof (cases "k < length bs")
    case True
    then have d: "drop k bs = bs ! k # drop (Suc k) bs"
      by (simp add: Cons_nth_drop_Suc)
    show ?thesis
    proof (cases "bs ! k")
      case True
      with \<open>k < length bs\<close> "1.IH" d show ?thesis
        by (subst left_scan.simps) simp
    next
      case False
      with d show ?thesis
        by (subst left_scan.simps) simp
    qed
  next
    case False
    then show ?thesis
      by (subst left_scan.simps) simp
  qed
qed

lemma right_scan_left_scan:
  "right_scan bs k = left_scan (rev bs) k"
proof (induction bs k rule: right_scan.induct)
  case (1 bs k)
  show ?case
  proof (cases "k < length bs")
    case True
    then have n: "rev bs ! k = bs ! (length bs - 1 - k)"
      by (simp add: rev_nth)
    show ?thesis
    proof (cases "bs ! (length bs - 1 - k)")
      case True
      with \<open>k < length bs\<close> "1.IH" n show ?thesis
        by (subst right_scan.simps, subst left_scan.simps) simp
    next
      case False
      with n show ?thesis
        by (subst right_scan.simps, subst left_scan.simps) simp
    qed
  next
    case False
    then show ?thesis
      by (subst right_scan.simps, subst left_scan.simps) simp
  qed
qed

lemma find_pillars_takeWhile:
  "find_pillars bs =
     (int (min (length (takeWhile (\<lambda>b. b) bs)) (length bs div 2)),
      int (min (length (takeWhile (\<lambda>b. b) (rev bs))) (length bs div 2)))"
  by (simp add: find_pillars_def Let_def left_scan_takeWhile right_scan_left_scan)

lemma takeWhile_replicate_True: "takeWhile (\<lambda>b. b) (replicate n True) = replicate n True"
  by (induction n) auto

lemma takeWhile_run: "takeWhile (\<lambda>b. b) (replicate a True @ False # ys) = replicate a True"
  by (induction a) auto

lemma find_pillars_range:
  "0 \<le> fst (find_pillars bs) \<and> fst (find_pillars bs) \<le> int (length bs div 2)
   \<and> 0 \<le> snd (find_pillars bs) \<and> snd (find_pillars bs) \<le> int (length bs div 2)
   \<and> fst (find_pillars bs) + snd (find_pillars bs) \<le> int (length bs)"
proof -
  have "length bs div 2 + length bs div 2 \<le> length bs" by simp
  then have "min (length (takeWhile (\<lambda>b. b) bs)) (length bs div 2)
      + min (length (takeWhile (\<lambda>b. b) (rev bs))) (length bs div 2) \<le> length bs"
    by linarith
  then have "int (min (length (takeWhile (\<lambda>b. b) bs)) (length bs div 2))
      + int (min (length (takeWhile (\<lambda>b. b) (rev bs))) (length bs div 2)) \<le> int (length bs)"
    by linarith
  then show ?thesis
    by (simp add: find_pillars_takeWhile)
qed

section \<open>Division and rounding in \<open>to_norm\<close>\<close>

lemma pow2_below_overflow: "k \<le> 1023 \<Longrightarrow> 2 powi k < dbl_overflow"
proof -
  assume "k \<le> 1023"
  then have "(2::rat) powi k < 2 powi 1024" by (simp only: pow2_less_iff)
  then show ?thesis by (simp add: dbl_overflow_def)
qed

lemma fl64_no_overflow:
  assumes "\<bar>q\<bar> \<le> 2 powi k" "- 1074 \<le> k" "k \<le> 1023"
  shows "\<not> dbl_overflow \<le> \<bar>fl64 q\<bar>"
  using fl64_abs_le_pow2[OF assms(1,2)] pow2_below_overflow[OF assms(3)] by simp

lemma round_half_even_near: "\<bar>of_int (round_half_even z) - z\<bar> \<le> 1"
proof -
  have a: "of_int \<lfloor>z\<rfloor> \<le> z" "z < of_int \<lfloor>z\<rfloor> + 1"
    using floor_correct[of z] by auto
  have b: "(of_int \<lfloor>z\<rfloor> :: rat) \<le> of_int (round_half_even z)"
    using round_half_even_range(1)[of z] by (simp only: of_int_le_iff)
  have "(of_int (round_half_even z) :: rat) \<le> of_int (\<lfloor>z\<rfloor> + 1)"
    using round_half_even_range(2)[of z] by (simp only: of_int_le_iff)
  then have c: "(of_int (round_half_even z) :: rat) \<le> of_int \<lfloor>z\<rfloor> + 1"
    by simp
  show ?thesis using a b c by linarith
qed

lemma round_decimals_near: "\<bar>round_decimals v n - v\<bar> \<le> 1"
proof -
  define z where "z = v * 10 ^ n"
  have p: "(1::rat) \<le> 10 ^ n" by simp
  have "round_decimals v n - v = (of_int (round_half_even z) - z) / 10 ^ n"
    by (simp add: round_decimals_def z_def diff_divide_distrib)
  then have "\<bar>round_decimals v n - v\<bar> = \<bar>of_int (round_half_even z) - z\<bar> / 10 ^ n"
    by simp
  also have "\<dots> \<le> \<bar>of_int (round_half_even z) - z\<bar> / 1"
    using p by (intro divide_left_mono) auto
  also have "\<dots> \<le> 1" using round_half_even_near[of z] by simp
  finally show ?thesis .
qed

lemma py_round_ok:
  assumes "\<bar>v\<bar> \<le> 2 powi 1020"
  shows "py_round v 6 = Inr (fl64 (round_decimals v 6))"
proof -
  have "\<bar>round_decimals v 6\<bar> \<le> \<bar>v\<bar> + 1"
    using round_decimals_near[of v 6] by linarith
  also have "\<dots> \<le> 2 powi 1020 + 2 powi 1020"
    using assms by (intro add_mono) simp_all
  also have "\<dots> = 2 powi 1021"
    using pow2_add[of 1020 1] by simp
  finally have "\<not> dbl_overflow \<le> \<bar>fl64 (round_decimals v 6)\<bar>"
    by (rule fl64_no_overflow) simp_all
  then show ?thesis by (simp add: py_round_def Let_def)
qed

lemma round6_div_ok:
  assumes "b \<noteq> 0" "\<bar>of_int a / of_int b :: rat\<bar> \<le> 2 powi 1020"
  shows "round6_div a b = Inr (fl64 (round_decimals (fl64 (of_int a / of_int b)) 6))"
proof -
  have n: "\<not> dbl_overflow \<le> \<bar>fl64 (of_int a / of_int b)\<bar>"
    using assms(2) by (rule fl64_no_overflow) simp_all
  have "\<bar>fl64 (of_int a / of_int b)\<bar> \<le> 2 powi 1020"
    using assms(2) by (rule fl64_abs_le_pow2) simp
  then show ?thesis
    using n assms(1) by (simp add: round6_div_def py_truediv_def Let_def py_round_ok)
qed

lemma int_quotient_bound:
  assumes "b \<noteq> 0" "\<bar>a\<bar> \<le> c * \<bar>b\<bar>"
  shows "\<bar>of_int a / of_int b :: rat\<bar> \<le> of_int c"
proof -
  have b: "(0::rat) < \<bar>of_int b\<bar>" using assms(1) by simp
  have "(of_int \<bar>a\<bar> :: rat) \<le> of_int (c * \<bar>b\<bar>)" using assms(2) by (simp only: of_int_le_iff)
  then have "\<bar>of_int a :: rat\<bar> \<le> of_int c * \<bar>of_int b\<bar>" by simp
  then have "\<bar>of_int a :: rat\<bar> / \<bar>of_int b\<bar> \<le> of_int c"
    using b by (simp add: pos_divide_le_eq)
  then show ?thesis by simp
qed

lemma round_decimals_of_int: "round_decimals (of_int n) k = of_int n"
proof -
  have "of_int n * 10 ^ k = (of_int (n * 10 ^ k) :: rat)" by simp
  then have "round_half_even (of_int n * 10 ^ k) = n * 10 ^ k"
    by (simp only: round_half_even_of_int)
  then show ?thesis by (simp add: round_decimals_def)
qed

lemma round6_div_zero: "b \<noteq> 0 \<Longrightarrow> round6_div 0 b = Inr 0"
  using round6_div_ok[of b 0] round_decimals_of_int[of 0 6] by (simp add: fl64_zero)

lemma round6_div_self: "b \<noteq> 0 \<Longrightarrow> round6_div b b = Inr 1"
  using round6_div_ok[of b b] round_decimals_of_int[of 1 6] fl64_of_int[of 1] by simp

lemma round_half_even_nearest: "\<bar>of_int (round_half_even z) - z\<bar> \<le> 1 / 2"
proof -
  have a: "of_int \<lfloor>z\<rfloor> \<le> z" "z < of_int \<lfloor>z\<rfloor> + 1"
    using floor_correct[of z] by auto
  show ?thesis
    using a unfolding round_half_even_def Let_def by (auto simp: abs_le_iff)
qed

lemma round_decimals_nearest:
  "\<bar>round_decimals v n - v\<bar> \<le> 1 / (2 * 10 ^ n)"
  "\<exists>k::int. round_decimals v n = of_int k / 10 ^ n"
proof -
  define z where "z = v * 10 ^ n"
  have p: "(0::rat) < 10 ^ n" by simp
  have "round_decimals v n - v = (of_int (round_half_even z) - z) / 10 ^ n"
    by (simp add: round_decimals_def z_def diff_divide_distrib)
  then have "\<bar>round_decimals v n - v\<bar> = \<bar>of_int (round_half_even z) - z\<bar> / 10 ^ n"
    by simp
  also have "\<dots> \<le> (1 / 2) / 10 ^ n"
    using round_half_even_nearest[of z] p by (intro divide_right_mono) auto
  finally show "\<bar>round_decimals v n - v\<bar> \<le> 1 / (2 * 10 ^ n)" by simp
  show "\<exists>k::int. round_decimals v n = of_int k / 10 ^ n"
    unfolding round_decimals_def by blast
qed

lemma big_pow_le: "(of_int (2 ^ 1003) :: rat) \<le> 2 powi 1020"
proof -
  have "(2::rat) powi 1003 \<le> 2 powi 1020" by (simp only: pow2_le_iff)
  then show ?thesis by simp
qed

lemma round6_div_bounded:
  fixes a b :: int
  assumes "b \<noteq> 0" "\<bar>a\<bar> \<le> 2 ^ 1003 * \<bar>b\<bar>"
  shows "round6_div a b = Inr (fl64 (round_decimals (fl64 (of_int a / of_int b)) 6))"
proof -
  have "\<bar>of_int a / of_int b :: rat\<bar> \<le> of_int (2 ^ 1003)"
    using assms by (rule int_quotient_bound)
  then have "\<bar>of_int a / of_int b :: rat\<bar> \<le> 2 powi 1020"
    using big_pow_le by (rule order_trans)
  with assms(1) show ?thesis by (rule round6_div_ok)
qed

lemma crop_width_bound:
  fixes W left right :: int
  assumes "W \<noteq> 0" "\<bar>left\<bar> \<le> 2 ^ 1000" "\<bar>right\<bar> \<le> 2 ^ 1000"
  shows "\<bar>max 0 (W - left - right)\<bar> \<le> 2 ^ 1003 * \<bar>W\<bar>"
    and "\<bar>left\<bar> \<le> 2 ^ 1003 * \<bar>W\<bar>"
proof -
  define L :: int where "L = 2 ^ 1000"
  have L: "0 < L" by (simp add: L_def)
  have e: "(2::int) ^ 1003 = 8 * L" by (simp add: L_def)
  have w: "1 \<le> \<bar>W\<bar>" using assms(1) by linarith
  have m: "L \<le> L * \<bar>W\<bar>" using w L by simp
  have "1 * \<bar>W\<bar> \<le> L * \<bar>W\<bar>" using L by (intro mult_right_mono) auto
  then have m2: "\<bar>W\<bar> \<le> L * \<bar>W\<bar>" by simp
  have "\<bar>max 0 (W - left - right)\<bar> \<le> \<bar>W\<bar> + L + L"
    using assms(2,3) unfolding L_def[symmetric] by linarith
  also have "\<dots> \<le> 8 * (L * \<bar>W\<bar>)" using m m2 w L by linarith
  finally show "\<bar>max 0 (W - left - right)\<bar> \<le> 2 ^ 1003 * \<bar>W\<bar>"
    by (simp only: e mult.assoc)
  have "\<bar>left\<bar> \<le> 8 * (L * \<bar>W\<bar>)"
    using assms(2) m L unfolding L_def[symmetric] by linarith
  then show "\<bar>left\<bar> \<le> 2 ^ 1003 * \<bar>W\<bar>"
    by (simp only: e mult.assoc)
qed

lemma to_norm_value_gen:
  assumes "W \<noteq> 0" "H \<noteq> 0" "\<bar>left\<bar> \<le> 2 ^ 1003 * \<bar>W\<bar>"
    and "\<bar>max 0 (W - left - right)\<bar> \<le> 2 ^ 1003 * \<bar>W\<bar>"
  shows "to_norm left right W H =
     Inr \<lparr>crop_x = left, crop_y = 0, crop_w = max 0 (W - left - right), crop_h = H,
          crop_nx = fl64 (round_decimals (fl64 (of_int left / of_int W)) 6),
          crop_ny = 0,
          crop_nw = fl64 (round_decimals (fl64 (of_int (max 0 (W - left - right)) / of_int W)) 6),
          crop_nh = 1\<rparr>"
proof -
  have x: "round6_div left W = Inr (fl64 (round_decimals (fl64 (of_int left / of_int W)) 6))"
    using assms(1,3) by (rule round6_div_bounded)
  have w: "round6_div (max 0 (W - left - right)) W =
      Inr (fl64 (round_decimals (fl64 (of_int (max 0 (W - left - right)) / of_int W)) 6))"
    using assms(1,4) by (rule round6_div_bounded)
  show ?thesis
    unfolding to_norm_def Let_def
    by (simp only: x w round6_div_zero[OF assms(2)] round6_div_self[OF assms(2)] sum.case)
qed

lemma to_norm_value:
  assumes "W \<noteq> 0" "H \<noteq> 0" "\<bar>left\<bar> \<le> 2 ^ 1000" "\<bar>right\<bar> \<le> 2 ^ 1000"
  shows "to_norm left right W H =
     Inr \<lparr>crop_x = left, crop_y = 0, crop_w = max 0 (W - left - right), crop_h = H,
          crop_nx = fl64 (round_decimals (fl64 (of_int left / of_int W)) 6),
          crop_ny = 0,
          crop_nw = fl64 (round_decimals (fl64 (of_int (max 0 (W - left - right)) / of_int W)) 6),
          crop_nh = 1\<rparr>"
  using assms(1,2) crop_width_bound(2)[OF assms(1,3,4)] crop_width_bound(1)[OF assms(1,3,4)]
  by (rule to_norm_value_gen)

lemma to_norm_zero:
  assumes "W = 0 \<or> H = 0" "\<bar>left\<bar> \<le> 2 ^ 1000" "\<bar>right\<bar> \<le> 2 ^ 1000"
  shows "to_norm left right W H = Inl ZeroDivisionError"
proof (cases "W = 0")
  case True
  then show ?thesis
    by (simp add: to_norm_def round6_div_def py_truediv_def)
next
  case False
  with assms(1) have H: "H = 0" by simp
  have x: "round6_div left W = Inr (fl64 (round_decimals (fl64 (of_int left / of_int W)) 6))"
    using False crop_width_bound(2)[OF False assms(2,3)] by (rule round6_div_bounded)
  have y: "round6_div 0 H = Inl ZeroDivisionError"
    by (simp add: H round6_div_def py_truediv_def)
  show ?thesis
    unfolding to_norm_def Let_def by (simp only: x y sum.case)
qed

section \<open>The loop of \<open>analyze_frames\<close>\<close>

lemma column_blackness_length:
  "length (fst (column_blackness img t)) = img_width img"
  "length (snd (column_blackness img t)) = img_width img"
  by (simp_all add: column_blackness_def Let_def)

lemma column_blackness_nth:
  assumes "i < img_width img"
  shows "snd (column_blackness img t) ! i = column_mean img i"
    and "fst (column_blackness img t) ! i = float_le (column_mean img i) (Finite (of_int t))"
  using assms by (simp_all add: column_blackness_def Let_def)

lemma astype_int_length: "length (astype_int bw) = length bw"
  by (simp add: astype_int_def)

lemma astype_int_nth: "i < length bw \<Longrightarrow> astype_int bw ! i = (if bw ! i then 1 else 0)"
  by (simp add: astype_int_def)

lemma frame_step_first:
  "frame_step t \<lparr>ls_first = None, ls_store = st, ls_n = k\<rparr> f =
     Inr \<lparr>ls_first = Some (astype_int (fst (column_blackness f t)), img_width f, img_height f),
          ls_store = st @ [snd (column_blackness f t)], ls_n = k + 1\<rparr>"
  by (simp add: frame_step_def Let_def split: prod.splits)

lemma frame_step_next:
  "frame_step t \<lparr>ls_first = Some (cnts, wd, ht), ls_store = st, ls_n = k\<rparr> f =
     (if img_width f \<noteq> wd then Inl widths_vary
      else Inr \<lparr>ls_first = Some (map2 (+) cnts (astype_int (fst (column_blackness f t))), wd, ht),
                ls_store = st @ [snd (column_blackness f t)], ls_n = k + 1\<rparr>)"
  by (simp add: frame_step_def Let_def split: prod.splits)

lemma frames_loop_same_width:
  assumes "\<forall>f \<in> set ps. img_width f = wd" "length cnts = wd"
  shows "frames_loop t \<lparr>ls_first = Some (cnts, wd, ht), ls_store = st, ls_n = k\<rparr> ps =
     Inr \<lparr>ls_first =
            Some (map (\<lambda>i. cnts ! i
                     + int (length (filter (\<lambda>f. fst (column_blackness f t) ! i) ps))) [0..<wd],
                  wd, ht),
          ls_store = st @ map (\<lambda>f. snd (column_blackness f t)) ps,
          ls_n = k + int (length ps)\<rparr>"
  using assms
proof (induction ps arbitrary: cnts st k)
  case Nil
  have "map ((!) cnts) [0..<length cnts] = cnts" by (rule map_nth)
  then have "map ((!) cnts) [0..<wd] = cnts" using Nil.prems(2) by simp
  then show ?case by simp
next
  case (Cons f ps)
  define cnts' where "cnts' = map2 (+) cnts (astype_int (fst (column_blackness f t)))"
  have w: "img_width f = wd" using Cons.prems(1) by simp
  have len: "length cnts' = wd"
    using Cons.prems(2) w by (simp add: cnts'_def astype_int_length column_blackness_length)
  have nth: "cnts' ! i = cnts ! i + (if fst (column_blackness f t) ! i then 1 else 0)"
    if "i < wd" for i
    using that Cons.prems(2) w
    by (simp add: cnts'_def astype_int_length astype_int_nth column_blackness_length)
  have step: "frame_step t \<lparr>ls_first = Some (cnts, wd, ht), ls_store = st, ls_n = k\<rparr> f =
      Inr \<lparr>ls_first = Some (cnts', wd, ht), ls_store = st @ [snd (column_blackness f t)],
           ls_n = k + 1\<rparr>"
    by (simp add: frame_step_next w cnts'_def)
  have ih: "frames_loop t \<lparr>ls_first = Some (cnts', wd, ht),
        ls_store = st @ [snd (column_blackness f t)], ls_n = k + 1\<rparr> ps =
     Inr \<lparr>ls_first =
            Some (map (\<lambda>i. cnts' ! i
                     + int (length (filter (\<lambda>f. fst (column_blackness f t) ! i) ps))) [0..<wd],
                  wd, ht),
          ls_store = (st @ [snd (column_blackness f t)]) @ map (\<lambda>f. snd (column_blackness f t)) ps,
          ls_n = (k + 1) + int (length ps)\<rparr>"
    using Cons.prems(1) len by (intro Cons.IH) simp_all
  have m: "map (\<lambda>i. cnts' ! i
             + int (length (filter (\<lambda>f. fst (column_blackness f t) ! i) ps))) [0..<wd]
      = map (\<lambda>i. cnts ! i
             + int (length (filter (\<lambda>f. fst (column_blackness f t) ! i) (f # ps)))) [0..<wd]"
    by (rule map_cong) (simp_all add: nth)
  show ?case
    by (simp add: step ih m)
qed

lemma frames_loop_mismatch:
  assumes "\<exists>f \<in> set ps. img_width f \<noteq> wd"
  shows "frames_loop t \<lparr>ls_first = Some (cnts, wd, ht), ls_store = st, ls_n = k\<rparr> ps
     = Inl widths_vary"
  using assms
proof (induction ps arbitrary: cnts st k)
  case Nil
  then show ?case by simp
next
  case (Cons f ps)
  show ?case
  proof (cases "img_width f \<noteq> wd")
    case True
    then show ?thesis by (simp add: frame_step_next)
  next
    case False
    with Cons.prems have "\<exists>f \<in> set ps. img_width f \<noteq> wd" by simp
    then show ?thesis using False by (simp add: frame_step_next Cons.IH)
  qed
qed

lemma frames_loop_run:
  assumes "\<forall>f \<in> set rest. img_width f = img_width f0"
  shows "frames_loop t \<lparr>ls_first = None, ls_store = [], ls_n = 0\<rparr> (f0 # rest) =
     Inr \<lparr>ls_first =
            Some (map (\<lambda>i. int (length (filter (\<lambda>f. fst (column_blackness f t) ! i) (f0 # rest))))
                    [0..<img_width f0],
                  img_width f0, img_height f0),
          ls_store = map (\<lambda>f. snd (column_blackness f t)) (f0 # rest),
          ls_n = int (length (f0 # rest))\<rparr>"
proof -
  have len: "length (astype_int (fst (column_blackness f0 t))) = img_width f0"
    by (simp add: astype_int_length column_blackness_length)
  have m: "map (\<lambda>i. astype_int (fst (column_blackness f0 t)) ! i
             + int (length (filter (\<lambda>f. fst (column_blackness f t) ! i) rest))) [0..<img_width f0]
      = map (\<lambda>i. int (length (filter (\<lambda>f. fst (column_blackness f t) ! i) (f0 # rest))))
          [0..<img_width f0]"
    by (rule map_cong) (simp_all add: astype_int_nth column_blackness_length)
  show ?thesis
    by (simp add: frame_step_first frames_loop_same_width[OF assms len] m)
qed

lemma frames_loop_vary:
  assumes "\<exists>f \<in> set rest. img_width f \<noteq> img_width f0"
  shows "frames_loop t \<lparr>ls_first = None, ls_store = [], ls_n = 0\<rparr> (f0 # rest) = Inl widths_vary"
  by (simp add: frame_step_first frames_loop_mismatch[OF assms])

section \<open>The required count\<close>

lemma float_of_int_small:
  assumes "\<bar>n\<bar> < 2 ^ 53"
  shows "float_of_int n = Inr (of_int n)"
proof -
  have f: "fl64 (of_int n) = of_int n" using assms by (rule fl64_of_int)
  have "(of_int \<bar>n\<bar> :: rat) < of_int (2 ^ 53)" using assms by (simp only: of_int_less_iff)
  then have "\<bar>of_int n :: rat\<bar> < 2 powi 53" by simp
  also have "\<dots> < dbl_overflow" by (rule pow2_below_overflow) simp
  finally show ?thesis by (simp add: float_of_int_def f)
qed

lemma round_to_double_Finite:
  assumes "\<bar>q\<bar> \<le> 2 powi 1023"
  shows "round_to_double q = Finite (fl64 q)"
proof -
  have "\<not> dbl_overflow \<le> \<bar>fl64 q\<bar>" using assms by (rule fl64_no_overflow) simp_all
  then have "\<not> dbl_overflow \<le> fl64 q" "\<not> fl64 q \<le> - dbl_overflow" by linarith+
  then show ?thesis by (simp add: round_to_double_def Let_def)
qed

lemma required_count_Finite:
  assumes "\<bar>n\<bar> < 2 ^ 53" "\<bar>p * of_int n\<bar> \<le> 2 powi 1023"
  shows "required_count (Finite p) n = Inr \<lceil>fl64 (p * of_int n)\<rceil>"
  by (simp add: required_count_def float_of_int_small[OF assms(1)] float_mul_def
      round_to_double_Finite[OF assms(2)])

lemma required_count_zero:
  "required_count p 0 = (case p of Finite q \<Rightarrow> Inr 0 | _ \<Rightarrow> Inl ValueError)"
proof -
  have z: "float_of_int 0 = Inr 0" using float_of_int_small[of 0] by simp
  have r: "round_to_double 0 = Finite 0"
    using round_to_double_Finite[of 0] by (simp add: fl64_zero)
  show ?thesis
    by (cases p) (simp_all add: required_count_def z float_mul_def r inf_mul_def)
qed

lemma required_count_Inr_Finite:
  assumes "required_count p n = Inr r"
  obtains a x where "p = Finite a" "float_of_int n = Inr x" "x = fl64 (of_int n)"
    "round_to_double (a * x) = Finite (fl64 (a * x))" "r = \<lceil>fl64 (a * x)\<rceil>"
proof -
  obtain x where x: "float_of_int n = Inr x"
    using assms by (cases "float_of_int n") (simp_all add: required_count_def)
  have xv: "x = fl64 (of_int n)"
    using x by (simp add: float_of_int_def Let_def split: if_splits)
  have c: "math_ceil (float_mul p (Finite x)) = Inr r"
    using assms x by (simp add: required_count_def)
  obtain a where a: "p = Finite a"
    using c by (cases p) (simp_all add: float_mul_def inf_mul_def split: if_splits)
  have "math_ceil (round_to_double (a * x)) = Inr r"
    using c a by (simp add: float_mul_def)
  then have "round_to_double (a * x) = Finite (fl64 (a * x)) \<and> r = \<lceil>fl64 (a * x)\<rceil>"
    by (auto simp: round_to_double_def Let_def split: if_splits)
  with a x xv that show ?thesis by blast
qed

lemma required_count_mono:
  assumes "float_le p1 p2" "0 \<le> n"
    and "required_count p1 n = Inr r1" "required_count p2 n = Inr r2"
  shows "r1 \<le> r2"
proof -
  obtain a x where a: "p1 = Finite a" "x = fl64 (of_int n)" "r1 = \<lceil>fl64 (a * x)\<rceil>"
    using assms(3) by (rule required_count_Inr_Finite)
  obtain b y where b: "p2 = Finite b" "y = fl64 (of_int n)" "r2 = \<lceil>fl64 (b * y)\<rceil>"
    using assms(4) by (rule required_count_Inr_Finite)
  have ab: "a \<le> b" using assms(1) a(1) b(1) by simp
  have "0 \<le> x" using assms(2) unfolding a(2) by (intro fl64_nonneg) simp
  then have "a * x \<le> b * x" using ab by (rule mult_right_mono[rotated])
  then have "fl64 (a * x) \<le> fl64 (b * x)" by (rule fl64_mono)
  then show ?thesis unfolding a(3) b(3) a(2) b(2) by (rule ceiling_mono)
qed

section \<open>The blackness flag\<close>

lemma sum_list_bounded:
  assumes "\<forall>x \<in> set xs. f x \<le> (k::nat)"
  shows "sum_list (map f xs) \<le> k * length xs"
  using assms by (induction xs) auto

lemma column_sum_le: "column_sum img c \<le> 255 * img_height img"
proof -
  have "unat (img_px img r c) \<le> 255" for r
    using unsigned_less[of "img_px img r c", where ?'a = nat] by simp
  then have "sum_list (map (\<lambda>r. unat (img_px img r c)) [0..<img_height img])
      \<le> 255 * length [0..<img_height img]"
    by (intro sum_list_bounded) simp
  then show ?thesis by (simp add: column_sum_def)
qed

lemma column_flag_exact:
  assumes "0 < img_height img" "img_height img \<le> 2 ^ 44"
  shows "float_le (column_mean img c) (Finite (of_int t))
     \<longleftrightarrow> (of_nat (column_sum img c) / of_nat (img_height img) :: rat) \<le> of_int t"
proof -
  define S where "S = column_sum img c"
  define H where "H = img_height img"
  define m :: rat where "m = of_nat S / of_nat H"
  have H: "0 < H" "H \<le> 2 ^ 44" using assms by (simp_all add: H_def)
  have Hq: "(0::rat) < of_nat H" using H(1) by simp
  have S: "S \<le> 255 * H" unfolding S_def H_def by (rule column_sum_le)
  have m0: "0 \<le> m" by (simp add: m_def)
  have m255: "m \<le> 255"
  proof -
    have "(of_nat S :: rat) \<le> of_nat (255 * H)" using S by (simp only: of_nat_le_iff)
    then show ?thesis using Hq by (simp add: m_def pos_divide_le_eq)
  qed
  have cm: "column_mean img c = Finite (fl64 m)"
    using assms(1) by (simp add: column_mean_def m_def S_def H_def)
  have "fl64 m \<le> of_int t \<longleftrightarrow> m \<le> of_int t"
  proof
    assume le: "m \<le> of_int t"
    show "fl64 m \<le> of_int t"
    proof (cases "255 \<le> t")
      case True
      have "fl64 m \<le> fl64 (of_int 255)" using m255 by (intro fl64_mono) simp
      also have "\<dots> = of_int 255" by (rule fl64_of_int) simp
      also have "\<dots> \<le> of_int t" using True by (simp only: of_int_le_iff)
      finally show ?thesis .
    next
      case False
      have "(0::rat) \<le> of_int t" using m0 le by linarith
      then have "0 \<le> t" by simp
      with False have "\<bar>t\<bar> < 2 ^ 53" by simp
      then have "fl64 (of_int t) = of_int t" by (rule fl64_of_int)
      then show ?thesis using fl64_mono[OF le] by simp
    qed
  next
    assume fle: "fl64 m \<le> of_int t"
    show "m \<le> of_int t"
    proof (rule ccontr)
      assume "\<not> m \<le> of_int t"
      then have gt: "of_int t < m" by simp
      have t0: "0 \<le> t"
      proof (rule ccontr)
        assume "\<not> 0 \<le> t"
        then have "(of_int t :: rat) < 0" by simp
        moreover have "0 \<le> fl64 m" using m0 by (rule fl64_nonneg)
        ultimately show False using fle by linarith
      qed
      have "(of_int t :: rat) < 255" using gt m255 by linarith
      then have t254: "t \<le> 254" by simp
      have "of_int t * of_nat H < (of_nat S :: rat)"
        using gt Hq by (simp add: m_def pos_less_divide_eq)
      then have "(of_int (t * int H) :: rat) < of_int (int S)" by simp
      then have "t * int H < int S" by (simp only: of_int_less_iff)
      then have "t * int H + 1 \<le> int S" by simp
      then have "(of_int (t * int H + 1) :: rat) \<le> of_int (int S)" by (simp only: of_int_le_iff)
      then have "of_int t * of_nat H + 1 \<le> (of_nat S :: rat)" by simp
      then have "of_int t + 1 / of_nat H \<le> m"
        using Hq by (simp add: m_def pos_le_divide_eq distrib_right)
      moreover have "1 / 2 ^ 44 \<le> 1 / (of_nat H :: rat)"
      proof -
        have "(of_nat H :: rat) \<le> of_nat (2 ^ 44)" using H(2) by (simp only: of_nat_le_iff)
        then show ?thesis using Hq by (intro divide_left_mono) simp_all
      qed
      ultimately have rm: "of_int t + 1 / 2 ^ 44 \<le> m" by linarith
      have rep: "of_int t + 1 / 2 ^ 44 = (of_int (t * 2 ^ 44 + 1) :: rat) * 2 powi (- 44)"
        by (simp add: power_int_minus field_simps)
      have "\<bar>t * 2 ^ 44 + 1\<bar> < 2 ^ 53" using t0 t254 by simp
      then have "fl64 (of_int (t * 2 ^ 44 + 1) * 2 powi (- 44))
          = of_int (t * 2 ^ 44 + 1) * 2 powi (- 44)"
        by (rule fl64_representable) simp
      then have "fl64 (of_int t + 1 / 2 ^ 44) = of_int t + 1 / 2 ^ 44"
        by (simp only: rep)
      then have "of_int t + 1 / 2 ^ 44 \<le> fl64 m"
        using fl64_mono[OF rm] by simp
      then have "of_int t < fl64 m" by simp
      with fle show False by simp
    qed
  qed
  then show ?thesis by (simp add: cm m_def S_def H_def)
qed

lemma column_sum_pixels:
  "column_sum img c = (\<Sum>r<img_height img. unat (img_px img r c))"
  by (simp add: column_sum_def interv_sum_list_conv_sum_set_nat atLeast0LessThan)

lemma column_flag_pixels:
  assumes "0 < img_height img" "img_height img \<le> 2 ^ 44" "i < img_width img"
  shows "fst (column_blackness img t) ! i
     \<longleftrightarrow> (of_nat (\<Sum>r<img_height img. unat (img_px img r i)) / of_nat (img_height img) :: rat)
            \<le> of_int t"
  using assms(3) column_flag_exact[OF assms(1,2), of i t]
  by (simp add: column_blackness_nth(2) column_sum_pixels)

lemma column_blackness_no_rows:
  assumes "img_height img = 0"
  shows "column_blackness img t = (replicate (img_width img) False, replicate (img_width img) NaN)"
proof -
  have "column_mean img = (\<lambda>c. NaN)"
    by (rule ext) (simp add: column_mean_def assms)
  then have "map (column_mean img) [0..<img_width img] = replicate (img_width img) NaN"
    by (simp add: map_replicate_const)
  then show ?thesis
    by (simp add: column_blackness_def Let_def)
qed

section \<open>\<open>analyze_frames\<close> on a non-empty sequence\<close>

lemma analyze_frames_run:
  assumes "\<forall>f \<in> set rest. img_width f = img_width f0"
    and "required_count p (int (length (f0 # rest))) = Inr req"
  shows "analyze_frames (f0 # rest) t p =
     Inr \<lparr>n_frames = int (length (f0 # rest)), width = img_width f0, height = img_height f0,
          counts = map (\<lambda>i. int (length (filter (\<lambda>f. fst (column_blackness f t) ! i) (f0 # rest))))
                     [0..<img_width f0],
          black_cols = counts_ge
               (map (\<lambda>i. int (length (filter (\<lambda>f. fst (column_blackness f t) ! i) (f0 # rest))))
                     [0..<img_width f0]) req,
          col_means = map (\<lambda>f. snd (column_blackness f t)) (f0 # rest)\<rparr>"
  unfolding analyze_frames_def frames_loop_run[OF assms(1)]
  using assms(2) by simp

lemma analyze_frames_vary_iff:
  "analyze_frames (f0 # rest) t p = Inl widths_vary
     \<longleftrightarrow> (\<exists>f \<in> set rest. img_width f \<noteq> img_width f0)"
proof (cases "\<exists>f \<in> set rest. img_width f \<noteq> img_width f0")
  case True
  then show ?thesis
    by (simp add: analyze_frames_def frames_loop_vary del: frames_loop.simps)
next
  case False
  then have same: "\<forall>f \<in> set rest. img_width f = img_width f0" by simp
  have "required_count p (int (length (f0 # rest))) \<noteq> Inl widths_vary"
    by (cases p)
      (auto simp: required_count_def float_of_int_def Let_def widths_vary_def float_mul_def
        inf_mul_def round_to_double_def split: if_splits)
  then have "analyze_frames (f0 # rest) t p \<noteq> Inl widths_vary"
    unfolding analyze_frames_def frames_loop_run[OF same]
    by (auto split: sum.splits)
  with False show ?thesis by simp
qed

section \<open>The claims\<close>

text \<open>
  C1. For every boolean column vector of length \<open>W\<close>, \<open>find_pillars\<close> returns widths
  \<open>(left, right)\<close> with \<open>0 \<le> left \<le> W div 2\<close> and \<open>0 \<le> right \<le> W div 2\<close>, hence
  \<open>left + right \<le> W\<close> and the crop width \<open>W - left - right\<close> is not negative; for an
  all-black vector it returns exactly \<open>(W div 2, W div 2)\<close>.
\<close>

theorem find_pillars_bounded:
  "0 \<le> fst (find_pillars bs) \<and> fst (find_pillars bs) \<le> int (length bs div 2)
   \<and> 0 \<le> snd (find_pillars bs) \<and> snd (find_pillars bs) \<le> int (length bs div 2)
   \<and> fst (find_pillars bs) + snd (find_pillars bs) \<le> int (length bs)
   \<and> 0 \<le> int (length bs) - fst (find_pillars bs) - snd (find_pillars bs)
   \<and> find_pillars (replicate W True) = (int (W div 2), int (W div 2))"
proof -
  have a: "find_pillars (replicate W True) = (int (W div 2), int (W div 2))"
    by (simp add: find_pillars_takeWhile takeWhile_replicate_True)
  show ?thesis
    using find_pillars_range[of bs] a by simp
qed

theorem find_pillars_bounded_witness:
  "fst (find_pillars [True, True, True, False]) \<le> 2
   \<and> snd (find_pillars [True, True, True, False]) \<le> 2
   \<and> find_pillars (replicate 5 True) = (2, 2)"
  using find_pillars_bounded [of "[True, True, True, False]" 5] by simp

text \<open>
  C2. The raw left width is the length of the maximal run of black columns that starts at
  index 0 (\<open>takeWhile\<close> on the vector), the raw right width the length of the maximal run
  that ends at index \<open>W - 1\<close> (\<open>takeWhile\<close> on the reversed vector), each capped at
  \<open>W div 2\<close>. Consequently whatever lies between the first non-black column from the left
  and the first non-black column from the right, black runs included, contributes
  nothing: with \<open>a\<close> black columns at the left edge and \<open>b\<close> at the right edge the result
  is \<open>(min a (W div 2), min b (W div 2))\<close> for every interior \<open>mid\<close>. The empty vector
  yields \<open>(0, 0)\<close>.
\<close>

theorem find_pillars_edge_runs:
  "find_pillars bs =
     (int (min (length (takeWhile (\<lambda>b. b) bs)) (length bs div 2)),
      int (min (length (takeWhile (\<lambda>b. b) (rev bs))) (length bs div 2)))
   \<and> find_pillars (replicate a True @ False # mid @ False # replicate b True) =
       (int (min a ((a + b + length mid + 2) div 2)),
        int (min b ((a + b + length mid + 2) div 2)))
   \<and> find_pillars (False # mid @ [False]) = (0, 0)
   \<and> find_pillars [] = (0, 0)"
proof -
  have l: "takeWhile (\<lambda>b. b) (replicate a True @ False # mid @ False # replicate b True)
      = replicate a True"
    by (rule takeWhile_run)
  have "rev (replicate a True @ False # mid @ False # replicate b True)
      = replicate b True @ False # (rev mid @ False # replicate a True)"
    by simp
  then have r: "takeWhile (\<lambda>b. b) (rev (replicate a True @ False # mid @ False # replicate b True))
      = replicate b True"
    by (simp only: takeWhile_run)
  have len: "length (replicate a True @ False # mid @ False # replicate b True)
      = a + b + length mid + 2"
    by simp
  have 1: "find_pillars (replicate a True @ False # mid @ False # replicate b True) =
       (int (min a ((a + b + length mid + 2) div 2)),
        int (min b ((a + b + length mid + 2) div 2)))"
    unfolding find_pillars_takeWhile l r len by simp
  have 2: "find_pillars (False # mid @ [False]) = (0, 0)"
    by (simp add: find_pillars_takeWhile)
  have 3: "find_pillars [] = (0, 0)"
    by (simp add: find_pillars_takeWhile)
  show ?thesis
    using 1 2 3 find_pillars_takeWhile[of bs] by simp
qed

theorem find_pillars_edge_runs_witness:
  "find_pillars ([True] @ False # [True, True] @ False # [True, True]) = (1, 2)"
  using find_pillars_edge_runs [of "[True, False, True, True, False, True, True]" "Suc 0" "[True, True]" "Suc (Suc 0)"]
  by simp

text \<open>
  C3. For every non-empty sequence of \<open>N\<close> frames of one width, threshold \<open>t\<close> and finite
  fraction \<open>frame_pct\<close>, \<open>analyze_frames\<close> returns a result in which \<open>counts ! i\<close> is the
  number of frames whose flag at column \<open>i\<close> is true and
  \<open>black_cols ! i = (counts ! i \<ge> ceil (frame_pct * N))\<close>, the product being the float
  product. A frame's flag at column \<open>i\<close> is true iff the column mean recorded in
  \<open>col_means\<close> is \<open>\<le> t\<close>, inclusive; for a frame of \<open>H\<close> rows, \<open>1 \<le> H \<le> 2^44\<close>, that is
  iff the mean brightness of the column, the sum of its \<open>H\<close> pixel values \<open>img_px _ r i\<close>
  divided by \<open>H\<close>, is \<open>\<le> t\<close>. The heights of the frames may differ. (\<open>N < 2^53\<close> and
  \<open>|frame_pct * N| \<le> 2^1023\<close> keep the float product finite.)
\<close>

theorem analyze_frames_counts:
  assumes "fs \<noteq> []" "\<forall>f \<in> set fs. img_width f = img_width (hd fs)"
    and "length fs < 2 ^ 53" "\<bar>p * of_nat (length fs)\<bar> \<le> 2 powi 1023"
  shows "\<exists>r. analyze_frames fs t (Finite p) = Inr r
    \<and> n_frames r = int (length fs) \<and> width r = img_width (hd fs)
    \<and> length (counts r) = width r \<and> length (black_cols r) = width r
    \<and> length (col_means r) = length fs
    \<and> (\<forall>i < width r.
          counts r ! i = int (length (filter (\<lambda>f. fst (column_blackness f t) ! i) fs))
        \<and> black_cols r ! i = (\<lceil>fl64 (p * of_nat (length fs))\<rceil> \<le> counts r ! i)
        \<and> (\<forall>k < length fs.
              fst (column_blackness (fs ! k) t) ! i
                = float_le (col_means r ! k ! i) (Finite (of_int t))
            \<and> (0 < img_height (fs ! k) \<and> img_height (fs ! k) \<le> 2 ^ 44 \<longrightarrow>
                 fst (column_blackness (fs ! k) t) ! i
                   = ((of_nat (\<Sum>r<img_height (fs ! k). unat (img_px (fs ! k) r i))
                         / of_nat (img_height (fs ! k)) :: rat)
                        \<le> of_int t))))"
proof -
  obtain f0 rest where fs: "fs = f0 # rest" using assms(1) by (cases fs) auto
  have same: "\<forall>f \<in> set rest. img_width f = img_width f0" using assms(2) by (simp add: fs)
  have all: "\<forall>f \<in> set fs. img_width f = img_width f0" using assms(2) by (simp add: fs)
  have n: "\<bar>int (length (f0 # rest))\<bar> < 2 ^ 53" using assms(3) by (simp add: fs)
  have o: "\<bar>p * of_int (int (length (f0 # rest)))\<bar> \<le> 2 powi 1023"
    using assms(4) by (simp add: fs)
  define req where "req = \<lceil>fl64 (p * of_nat (length fs))\<rceil>"
  have "required_count (Finite p) (int (length (f0 # rest)))
      = Inr \<lceil>fl64 (p * of_int (int (length (f0 # rest))))\<rceil>"
    using n o by (rule required_count_Finite)
  then have req: "required_count (Finite p) (int (length (f0 # rest))) = Inr req"
    by (simp add: req_def fs)
  define cs where
    "cs = map (\<lambda>i. int (length (filter (\<lambda>f. fst (column_blackness f t) ! i) fs)))
            [0..<img_width f0]"
  define r where
    "r = \<lparr>n_frames = int (length fs), width = img_width f0, height = img_height f0,
           counts = cs, black_cols = counts_ge cs req,
           col_means = map (\<lambda>f. snd (column_blackness f t)) fs\<rparr>"
  have run: "analyze_frames fs t (Finite p) = Inr r"
    using analyze_frames_run[OF same req, of t] by (simp add: r_def cs_def fs)
  have basics: "n_frames r = int (length fs)" "width r = img_width (hd fs)"
    "length (counts r) = width r" "length (black_cols r) = width r"
    "length (col_means r) = length fs"
    by (simp_all add: r_def cs_def counts_ge_def fs)
  have cols: "counts r ! i = int (length (filter (\<lambda>f. fst (column_blackness f t) ! i) fs))
        \<and> black_cols r ! i = (req \<le> counts r ! i)"
    if "i < width r" for i
    using that by (simp add: r_def cs_def counts_ge_def)
  have flags: "fst (column_blackness (fs ! k) t) ! i
        = float_le (col_means r ! k ! i) (Finite (of_int t))
      \<and> (0 < img_height (fs ! k) \<and> img_height (fs ! k) \<le> 2 ^ 44 \<longrightarrow>
           fst (column_blackness (fs ! k) t) ! i
             = ((of_nat (\<Sum>r<img_height (fs ! k). unat (img_px (fs ! k) r i))
                   / of_nat (img_height (fs ! k)) :: rat)
                  \<le> of_int t))"
    if "i < width r" "k < length fs" for i k
  proof -
    have "img_width (fs ! k) = img_width f0" using all that(2) by simp
    then have i: "i < img_width (fs ! k)" using that(1) by (simp add: r_def)
    have m: "col_means r ! k = snd (column_blackness (fs ! k) t)"
      using that(2) by (simp add: r_def)
    have a: "fst (column_blackness (fs ! k) t) ! i
        = float_le (col_means r ! k ! i) (Finite (of_int t))"
      unfolding m column_blackness_nth[OF i] by simp
    have b: "0 < img_height (fs ! k) \<and> img_height (fs ! k) \<le> 2 ^ 44 \<longrightarrow>
           fst (column_blackness (fs ! k) t) ! i
             = ((of_nat (\<Sum>r<img_height (fs ! k). unat (img_px (fs ! k) r i))
                   / of_nat (img_height (fs ! k)) :: rat)
                  \<le> of_int t)"
      using column_flag_pixels[OF _ _ i, of t] by blast
    show ?thesis using a b by (rule conjI)
  qed
  show ?thesis
    using run basics cols flags unfolding req_def by blast
qed

theorem analyze_frames_counts_witness:
  "\<exists>r. analyze_frames
         [\<lparr>img_width = 2, img_height = 1, img_px = (\<lambda>r c. if c = 0 then 0 else 255)\<rparr>,
          \<lparr>img_width = 2, img_height = 3, img_px = (\<lambda>r c. 7)\<rparr>] 16 (Finite (1 / 2)) = Inr r
    \<and> n_frames r = 2 \<and> width r = 2 \<and> counts r = [2, 1] \<and> black_cols r = [True, True]"
proof -
  define f1 where "f1 = \<lparr>img_width = 2, img_height = 1,
      img_px = (\<lambda>r c. if c = 0 then 0 else 255 :: 8 word)\<rparr>"
  define f2 where "f2 = \<lparr>img_width = 2, img_height = 3, img_px = (\<lambda>r c. 7 :: 8 word)\<rparr>"
  have hyp: "[f1, f2] \<noteq> []" "\<forall>f \<in> set [f1, f2]. img_width f = img_width (hd [f1, f2])"
    "length [f1, f2] < 2 ^ 53" "\<bar>(1 / 2 :: rat) * of_nat (length [f1, f2])\<bar> \<le> 2 powi 1023"
    by (simp_all add: f1_def f2_def)
  obtain r where run: "analyze_frames [f1, f2] 16 (Finite (1 / 2)) = Inr r"
    and basics: "n_frames r = int (length [f1, f2])" "width r = img_width (hd [f1, f2])"
      "length (counts r) = width r" "length (black_cols r) = width r"
    and cols: "\<forall>i < width r.
          counts r ! i = int (length (filter (\<lambda>f. fst (column_blackness f 16) ! i) [f1, f2]))
        \<and> black_cols r ! i = (\<lceil>fl64 ((1 / 2) * of_nat (length [f1, f2]))\<rceil> \<le> counts r ! i)
        \<and> (\<forall>k < length [f1, f2].
              fst (column_blackness ([f1, f2] ! k) 16) ! i
                = float_le (col_means r ! k ! i) (Finite (of_int 16))
            \<and> (0 < img_height ([f1, f2] ! k) \<and> img_height ([f1, f2] ! k) \<le> 2 ^ 44 \<longrightarrow>
                 fst (column_blackness ([f1, f2] ! k) 16) ! i
                   = ((of_nat (\<Sum>r<img_height ([f1, f2] ! k). unat (img_px ([f1, f2] ! k) r i))
                         / of_nat (img_height ([f1, f2] ! k)) :: rat)
                        \<le> of_int 16)))"
    using analyze_frames_counts[OF hyp, of 16] by blast
  have w: "width r = 2" using basics(2) by (simp add: f1_def)
  have three: "{..<3::nat} = {0, 1, 2}" by auto
  have ex: "\<forall>i < width r. \<forall>k < length [f1, f2].
      0 < img_height ([f1, f2] ! k) \<and> img_height ([f1, f2] ! k) \<le> 2 ^ 44 \<longrightarrow>
        fst (column_blackness ([f1, f2] ! k) 16) ! i
          = ((of_nat (\<Sum>r<img_height ([f1, f2] ! k). unat (img_px ([f1, f2] ! k) r i))
                / of_nat (img_height ([f1, f2] ! k)) :: rat) \<le> of_int 16)"
    using cols by blast
  have fl: "fst (column_blackness f1 16) ! 0" "\<not> fst (column_blackness f1 16) ! 1"
    "fst (column_blackness f2 16) ! 0" "fst (column_blackness f2 16) ! 1"
    using ex[rule_format, of 0 0] ex[rule_format, of 1 0]
      ex[rule_format, of 0 1] ex[rule_format, of 1 1]
    by (simp_all add: w f1_def f2_def three)
  have one: "fl64 1 = 1"
    using fl64_of_int[of 1] by simp
  have c: "counts r ! 0 = 2" "counts r ! 1 = 1" "black_cols r ! 0" "black_cols r ! 1"
    using cols[rule_format, of 0] cols[rule_format, of 1] fl
    by (simp_all add: w one)
  have len: "length (counts r) = 2" "length (black_cols r) = 2"
    using basics(3,4) w by simp_all
  have "counts r = [2, 1]"
    using len(1) c(1,2) by (intro nth_equalityI) (auto simp: less_Suc_eq numeral_2_eq_2)
  moreover have "black_cols r = [True, True]"
    using len(2) c(3,4) by (intro nth_equalityI) (auto simp: less_Suc_eq numeral_2_eq_2)
  ultimately show ?thesis
    using run basics(1) w unfolding f1_def f2_def by simp
qed

text \<open>
  C4. For frame dimensions \<open>W > 0\<close> and \<open>H > 0\<close>, \<open>to_norm\<close> returns the pixel rectangle
  \<open>x = left\<close>, \<open>y = 0\<close>, \<open>w = max 0 (W - left - right)\<close>, \<open>h = H\<close> and the normalized
  fields \<open>nx = x / W\<close>, \<open>nw = w / W\<close>, \<open>ny = y / H\<close>, \<open>nh = h / H\<close>, each a float
  quotient rounded to 6 decimals and stored as the nearest float; \<open>ny\<close> is \<open>0\<close> and \<open>nh\<close>
  is \<open>1\<close>. The rounding \<open>round_decimals _ 6\<close> returns a multiple of \<open>10^-6\<close> at most half
  of \<open>10^-6\<close> away from its argument (ties to even on the float's exact value). The
  widths range over the integers of magnitude up to \<open>2^1000\<close>: far beyond that the
  quotient of two Python ints no longer fits a float.
\<close>

theorem to_norm_rectangle:
  assumes "0 < W" "0 < H" "\<bar>left\<bar> \<le> 2 ^ 1000" "\<bar>right\<bar> \<le> 2 ^ 1000"
  shows "to_norm left right W H =
     Inr \<lparr>crop_x = left, crop_y = 0, crop_w = max 0 (W - left - right), crop_h = H,
          crop_nx = fl64 (round_decimals (fl64 (of_int left / of_int W)) 6),
          crop_ny = 0,
          crop_nw = fl64 (round_decimals (fl64 (of_int (max 0 (W - left - right)) / of_int W)) 6),
          crop_nh = 1\<rparr>
    \<and> \<bar>round_decimals v 6 - v\<bar> \<le> 1 / (2 * 10 ^ 6)
    \<and> (\<exists>k::int. round_decimals v 6 = of_int k / 10 ^ 6)"
proof -
  have "W \<noteq> 0" "H \<noteq> 0" using assms(1,2) by simp_all
  then have "to_norm left right W H =
     Inr \<lparr>crop_x = left, crop_y = 0, crop_w = max 0 (W - left - right), crop_h = H,
          crop_nx = fl64 (round_decimals (fl64 (of_int left / of_int W)) 6),
          crop_ny = 0,
          crop_nw = fl64 (round_decimals (fl64 (of_int (max 0 (W - left - right)) / of_int W)) 6),
          crop_nh = 1\<rparr>"
    using assms(3,4) by (rule to_norm_value)
  then show ?thesis
    using round_decimals_nearest[of v 6] by blast
qed

theorem to_norm_rectangle_witness:
  "to_norm 3 0 10 5 =
     Inr \<lparr>crop_x = 3, crop_y = 0, crop_w = 7, crop_h = 5,
          crop_nx = fl64 (round_decimals (fl64 (3 / 10)) 6), crop_ny = 0,
          crop_nw = fl64 (round_decimals (fl64 (7 / 10)) 6), crop_nh = 1\<rparr>
   \<and> to_norm 7 7 10 5 =
     Inr \<lparr>crop_x = 7, crop_y = 0, crop_w = 0, crop_h = 5,
          crop_nx = fl64 (round_decimals (fl64 (7 / 10)) 6), crop_ny = 0,
          crop_nw = fl64 (round_decimals (fl64 0) 6), crop_nh = 1\<rparr>"
  using to_norm_rectangle [of 10 5 3 0 0] to_norm_rectangle [of 10 5 7 7 0] by simp

text \<open>
  C5, as the spec states it, fails: \<open>analyze_frames\<close> has no check for an empty sequence
  and no dedicated error for it. With no frame the loop leaves \<open>counts\<close> at \<open>None\<close>; the
  required count is computed first (\<open>ValueError\<close> from \<open>math.ceil\<close> when \<open>frame_pct\<close> is NaN
  or infinite), then \<open>counts >= required\<close> raises the interpreter's \<open>TypeError\<close>. So the
  error on an empty sequence depends on \<open>frame_pct\<close>, and one of the two errors is also
  what a non-empty sequence fails with: it does not tell the caller that there were no
  frames.
\<close>

theorem analyze_frames_empty_counterexample:
  "analyze_frames [] 16 (Finite (fl64 (9 / 10))) = Inl TypeError
   \<and> analyze_frames [] 16 NaN = Inl ValueError
   \<and> analyze_frames [\<lparr>img_width = 1, img_height = 1, img_px = (\<lambda>r c. 0)\<rparr>] 16 NaN
       = Inl ValueError"
proof -
  have one: "float_of_int 1 = Inr 1"
    using float_of_int_small[of 1] by simp
  have "required_count NaN 1 = Inl ValueError"
    by (simp add: required_count_def one float_mul_def)
  then have "analyze_frames [\<lparr>img_width = 1, img_height = 1, img_px = (\<lambda>r c. 0)\<rparr>] 16 NaN
       = Inl ValueError"
    by (simp add: analyze_frames_def frame_step_first)
  then show ?thesis
    by (simp add: analyze_frames_def required_count_zero)
qed

text \<open>
  C5, amended. Given an empty frame sequence \<open>analyze_frames\<close> returns no result: it fails
  with \<open>TypeError\<close> when \<open>frame_pct\<close> is finite and with \<open>ValueError\<close> otherwise.
\<close>

theorem analyze_frames_empty:
  "analyze_frames [] t p = Inl (case p of Finite q \<Rightarrow> TypeError | _ \<Rightarrow> ValueError)"
  by (cases p) (simp_all add: analyze_frames_def required_count_zero)

theorem analyze_frames_empty_witness:
  "analyze_frames [] 12 PosInf = Inl ValueError \<and> analyze_frames [] 12 (Finite 1) = Inl TypeError"
  using analyze_frames_empty [of 12 PosInf] analyze_frames_empty [of 12 "Finite 1"] by simp

text \<open>
  C6. \<open>analyze_frames\<close> fails with its own error \<open>widths_vary\<close> (the \<open>RuntimeError\<close> it
  raises with the message \<open>Extracted frame widths vary; unexpected.\<close>) exactly when some
  frame after the first has a width different from the first frame's; no result is
  returned then. The error is raised at the first such frame \<open>g\<close>: the sequence up to \<open>g\<close>
  fails, whatever follows \<open>g\<close>, and the sequence before \<open>g\<close> does not. Heights do not occur
  in the condition: frames of one width and different heights never raise it.
\<close>

theorem analyze_frames_width_mismatch:
  "(analyze_frames (f0 # rest) t p = Inl widths_vary
      \<longleftrightarrow> (\<exists>f \<in> set rest. img_width f \<noteq> img_width f0))
   \<and> ((\<forall>f \<in> set pre. img_width f = img_width f0) \<and> img_width g \<noteq> img_width f0
      \<longrightarrow> analyze_frames (f0 # pre @ g # post) t p = Inl widths_vary
        \<and> analyze_frames (f0 # pre @ [g]) t p = Inl widths_vary
        \<and> analyze_frames (f0 # pre) t p \<noteq> Inl widths_vary)"
  by (simp add: analyze_frames_vary_iff)

theorem analyze_frames_width_mismatch_witness:
  "analyze_frames
     [\<lparr>img_width = 800, img_height = 450, img_px = (\<lambda>r c. 0)\<rparr>,
      \<lparr>img_width = 801, img_height = 450, img_px = (\<lambda>r c. 0)\<rparr>,
      \<lparr>img_width = 800, img_height = 450, img_px = (\<lambda>r c. 0)\<rparr>] 16 (Finite (fl64 (9 / 10)))
     = Inl widths_vary
   \<and> analyze_frames
     [\<lparr>img_width = 800, img_height = 450, img_px = (\<lambda>r c. 0)\<rparr>,
      \<lparr>img_width = 800, img_height = 300, img_px = (\<lambda>r c. 0)\<rparr>] 16 (Finite (fl64 (9 / 10)))
     \<noteq> Inl widths_vary"
  using analyze_frames_width_mismatch
     [of "\<lparr>img_width = 800, img_height = 450, img_px = (\<lambda>r c. 0)\<rparr>"
         "[\<lparr>img_width = 801, img_height = 450, img_px = (\<lambda>r c. 0)\<rparr>,
           \<lparr>img_width = 800, img_height = 450, img_px = (\<lambda>r c. 0)\<rparr>]"
         16 "Finite (fl64 (9 / 10))" "[]"
         "\<lparr>img_width = 801, img_height = 450, img_px = (\<lambda>r c. 0)\<rparr>"
         "[\<lparr>img_width = 800, img_height = 450, img_px = (\<lambda>r c. 0)\<rparr>]"]
    analyze_frames_width_mismatch
     [of "\<lparr>img_width = 800, img_height = 450, img_px = (\<lambda>r c. 0)\<rparr>"
         "[\<lparr>img_width = 800, img_height = 300, img_px = (\<lambda>r c. 0)\<rparr>]"
         16 "Finite (fl64 (9 / 10))" "[]"
         "\<lparr>img_width = 801, img_height = 450, img_px = (\<lambda>r c. 0)\<rparr>" "[]"]
  by simp

text \<open>
  C7, as the spec states it, fails: \<open>column_blackness\<close> raises nothing on a frame of zero
  width or zero height. With zero height every column mean is NaN and every flag false;
  with zero width both vectors are empty.
\<close>

theorem column_blackness_zero_counterexample:
  "column_blackness \<lparr>img_width = 3, img_height = 0, img_px = (\<lambda>r c. 0)\<rparr> 16
     = ([False, False, False], [NaN, NaN, NaN])
   \<and> column_blackness \<lparr>img_width = 0, img_height = 2, img_px = (\<lambda>r c. 0)\<rparr> 16 = ([], [])"
proof -
  have three: "replicate 3 x = [x, x, x]" for x :: 'a
    by (simp add: numeral_3_eq_3)
  have a: "column_blackness \<lparr>img_width = 3, img_height = 0, img_px = (\<lambda>r c. 0)\<rparr> 16
      = ([False, False, False], [NaN, NaN, NaN])"
    using column_blackness_no_rows[of "\<lparr>img_width = 3, img_height = 0, img_px = (\<lambda>r c. 0)\<rparr>" 16]
    by (simp add: three)
  have b: "column_blackness \<lparr>img_width = 0, img_height = 2, img_px = (\<lambda>r c. 0)\<rparr> 16 = ([], [])"
    by (simp add: column_blackness_def)
  show ?thesis
    using a b by simp
qed

text \<open>
  C7, amended. \<open>column_blackness\<close> is a pure function that returns for every frame, zero
  dimensions included, one flag and one mean per column, each flag being
  \<open>mean \<le> threshold\<close>; with zero height every mean is NaN and every flag false, with zero
  width both vectors are empty.
\<close>

theorem column_blackness_total:
  "length (fst (column_blackness img t)) = img_width img
   \<and> length (snd (column_blackness img t)) = img_width img
   \<and> (\<forall>i < img_width img.
         fst (column_blackness img t) ! i
           = float_le (snd (column_blackness img t) ! i) (Finite (of_int t)))
   \<and> (img_height img = 0 \<longrightarrow>
         column_blackness img t
           = (replicate (img_width img) False, replicate (img_width img) NaN))
   \<and> (img_width img = 0 \<longrightarrow> column_blackness img t = ([], []))"
  by (simp add: column_blackness_length column_blackness_nth column_blackness_no_rows)
    (simp add: column_blackness_def)

theorem column_blackness_total_witness:
  "column_blackness \<lparr>img_width = 2, img_height = 0, img_px = (\<lambda>r c. 9)\<rparr> 200
     = (replicate 2 False, replicate 2 NaN)"
  using column_blackness_total [of "\<lparr>img_width = 2, img_height = 0, img_px = (\<lambda>r c. 9)\<rparr>" 200]
  by simp

text \<open>
  C8. \<open>to_norm\<close> fails with Python's \<open>ZeroDivisionError\<close> if and only if \<open>W\<close> is zero or
  \<open>H\<close> is zero, it fails in no other case, and for \<open>W > 0\<close> and \<open>H > 0\<close> it returns a
  rectangle (widths of magnitude up to \<open>2^1000\<close>, as in C4).
\<close>

theorem to_norm_fails_iff:
  assumes "\<bar>left\<bar> \<le> 2 ^ 1000" "\<bar>right\<bar> \<le> 2 ^ 1000"
  shows "(to_norm left right W H = Inl ZeroDivisionError \<longleftrightarrow> W = 0 \<or> H = 0)
    \<and> ((\<exists>e. to_norm left right W H = Inl e) \<longleftrightarrow> W = 0 \<or> H = 0)
    \<and> (0 < W \<and> 0 < H \<longrightarrow> (\<exists>c. to_norm left right W H = Inr c))"
proof (cases "W = 0 \<or> H = 0")
  case True
  then have "to_norm left right W H = Inl ZeroDivisionError"
    using assms by (rule to_norm_zero)
  with True show ?thesis by auto
next
  case False
  then have "W \<noteq> 0" "H \<noteq> 0" by simp_all
  then have "\<exists>c. to_norm left right W H = Inr c"
    using to_norm_value[OF _ _ assms] by blast
  with False show ?thesis by auto
qed

theorem to_norm_fails_iff_witness:
  "to_norm 3 0 0 5 = Inl ZeroDivisionError
   \<and> to_norm 3 0 10 0 = Inl ZeroDivisionError
   \<and> (\<exists>c. to_norm 3 0 10 5 = Inr c)"
  using to_norm_fails_iff [of 3 0 0 5] to_norm_fails_iff [of 3 0 10 0]
    to_norm_fails_iff [of 3 0 10 5]
  by simp

text \<open>
  C9. For fixed counts and fixed \<open>n \<ge> 0\<close>, the final decision is antitone in
  \<open>frame_pct\<close>: when \<open>frame_pct1 \<le> frame_pct2\<close> and both required counts are computed, the
  first is at most the second, and a column that is not black at \<open>frame_pct1\<close> is not
  black at \<open>frame_pct2\<close>.
\<close>

theorem black_cols_antitone:
  assumes "float_le p1 p2" "0 \<le> n"
    and "required_count p1 n = Inr r1" "required_count p2 n = Inr r2"
    and "i < length cnts" "\<not> counts_ge cnts r1 ! i"
  shows "r1 \<le> r2 \<and> \<not> counts_ge cnts r2 ! i"
proof -
  have "r1 \<le> r2" using assms(1-4) by (rule required_count_mono)
  then show ?thesis using assms(5,6) by (simp add: counts_ge_def)
qed

theorem black_cols_antitone_witness:
  "required_count (Finite (1 / 2)) 4 = Inr 2 \<and> required_count (Finite 1) 4 = Inr 4
   \<and> counts_ge [4, 3, 1] 2 = [True, True, False]
   \<and> \<not> counts_ge [4, 3, 1] 4 ! 2"
proof -
  have a: "required_count (Finite (1 / 2)) 4 = Inr 2"
    using required_count_Finite[of 4 "1 / 2"] fl64_of_int[of 2] by simp
  have b: "required_count (Finite 1) 4 = Inr 4"
    using required_count_Finite[of 4 1] fl64_of_int[of 4] by simp
  have c: "counts_ge [4, 3, 1] 2 = [True, True, False]" by (simp add: counts_ge_def)
  have "\<not> counts_ge [4, 3, 1] 4 ! 2"
    using black_cols_antitone[of "Finite (1 / 2)" "Finite 1" 4 2 4 2 "[4, 3, 1]", OF _ _ a b]
    by (simp add: c)
  with a b c show ?thesis by simp
qed

text \<open>
  C10. For every boolean column vector of length \<open>W \<ge> 1\<close> and every \<open>H \<ge> 1\<close>,
  \<open>to_norm\<close> applied to the widths \<open>find_pillars\<close> returns yields a rectangle inside the
  frame: \<open>0 \<le> x\<close>, \<open>x + w = W - right \<le> W\<close>, \<open>y = 0\<close> and \<open>y + h = H\<close>.
\<close>

theorem pillar_crop_inside_frame:
  assumes "1 \<le> length bs" "1 \<le> H"
  shows "\<exists>c. to_norm (fst (find_pillars bs)) (snd (find_pillars bs)) (int (length bs)) H = Inr c
    \<and> 0 \<le> crop_x c \<and> 0 \<le> crop_w c
    \<and> crop_x c + crop_w c \<le> int (length bs)
    \<and> crop_x c + crop_w c = int (length bs) - snd (find_pillars bs)
    \<and> crop_y c = 0 \<and> crop_y c + crop_h c = H"
proof -
  define l where "l = fst (find_pillars bs)"
  define r where "r = snd (find_pillars bs)"
  define W where "W = int (length bs)"
  have rng: "0 \<le> l" "0 \<le> r" "l + r \<le> W"
    using find_pillars_range[of bs] by (simp_all add: l_def r_def W_def)
  have W: "W \<noteq> 0" "0 < W" using assms(1) by (simp_all add: W_def Suc_le_eq)
  have H: "H \<noteq> 0" using assms(2) by simp
  have "1 * \<bar>W\<bar> \<le> 2 ^ 1003 * \<bar>W\<bar>" by (intro mult_right_mono) simp_all
  then have big: "\<bar>W\<bar> \<le> 2 ^ 1003 * \<bar>W\<bar>" by simp
  have b1: "\<bar>l\<bar> \<le> 2 ^ 1003 * \<bar>W\<bar>"
    using rng W big by linarith
  have b2: "\<bar>max 0 (W - l - r)\<bar> \<le> 2 ^ 1003 * \<bar>W\<bar>"
    using rng W big by linarith
  have m: "max 0 (W - l - r) = W - l - r" using rng by simp
  have "to_norm l r W H =
     Inr \<lparr>crop_x = l, crop_y = 0, crop_w = max 0 (W - l - r), crop_h = H,
          crop_nx = fl64 (round_decimals (fl64 (of_int l / of_int W)) 6),
          crop_ny = 0,
          crop_nw = fl64 (round_decimals (fl64 (of_int (max 0 (W - l - r)) / of_int W)) 6),
          crop_nh = 1\<rparr>"
    using W(1) H b1 b2 by (rule to_norm_value_gen)
  then have "\<exists>c. to_norm l r W H = Inr c
    \<and> 0 \<le> crop_x c \<and> 0 \<le> crop_w c
    \<and> crop_x c + crop_w c \<le> W
    \<and> crop_x c + crop_w c = W - r
    \<and> crop_y c = 0 \<and> crop_y c + crop_h c = H"
    using rng by (simp add: m)
  then show ?thesis
    unfolding l_def r_def W_def .
qed

theorem pillar_crop_inside_frame_witness:
  "\<exists>c. to_norm (fst (find_pillars [True, True, False, False, True]))
          (snd (find_pillars [True, True, False, False, True])) 5 3 = Inr c
    \<and> crop_x c + crop_w c = 5 - snd (find_pillars [True, True, False, False, True])
    \<and> crop_y c = 0 \<and> crop_y c + crop_h c = 3"
  using pillar_crop_inside_frame [of "[True, True, False, False, True]" 3] by auto

end
